theory Spec2Isabelle
  imports Main "HOL-Library.Sublist"
begin

section \<open>Domain objects used by the plays\<close>

text \<open>
  The plays of \<^verbatim>\<open>maestro/plays/__init__.py\<close> work on container and service objects
  whose classes live elsewhere. The play code only reads \<^verbatim>\<open>container.name\<close>,
  \<^verbatim>\<open>container.service\<close>, \<^verbatim>\<open>service.requires\<close>, \<^verbatim>\<open>service.needed_for\<close> and
  \<^verbatim>\<open>service.containers\<close>. The object graph is cyclic (a container points to its service,
  a service to its containers), so services are referred to by an identifier and the
  graph is a function from identifiers to service objects. It is a parameter of
  everything below.
\<close>

type_synonym service_id = string

record container =
  name :: string
  service :: service_id

record service_obj =
  requires :: "service_id list"
  needed_for :: "service_id list"
  containers :: "container list"

type_synonym services = "service_id \<Rightarrow> service_obj"

datatype py_error = KeyError string

text \<open>
  What the error slot \<^verbatim>\<open>_error\<close> can hold besides \<^verbatim>\<open>None\<close>: an exception object
  caught from a task or from the join loop, or the string \<^verbatim>\<open>'Manual abort.'\<close>. The
  string is not empty and an exception object is truthy (its class is taken not to
  define \<^verbatim>\<open>__bool__\<close> or \<^verbatim>\<open>__len__\<close>, as no built-in exception does), so
  \<^verbatim>\<open>not self._error\<close> is \<open>error = None\<close>.
\<close>

datatype failure = Exception string | ManualAbort

section \<open>The dependency resolver\<close>

text \<open>\<^verbatim>\<open>set.remove(x)\<close> raises \<^verbatim>\<open>KeyError\<close> when \<^verbatim>\<open>x\<close> is not a member.\<close>

definition set_remove :: "container \<Rightarrow> container set \<Rightarrow> py_error + container set" where
  "set_remove x S = (if x \<in> S then Inr (S - {x}) else Inl (KeyError (name x)))"

text \<open>
  The body of the loop of \<^verbatim>\<open>_gather_dependencies\<close> (lines 123 to 128), for the loop
  variable \<open>c\<close> and the current value \<open>result\<close>: it returns the new value bound to
  \<^verbatim>\<open>result\<close>. \<^verbatim>\<open>functools.reduce(f, xs, init)\<close> is a left fold.
\<close>

definition gather_body :: "services \<Rightarrow> container set \<Rightarrow> bool \<Rightarrow> container set \<Rightarrow> container \<Rightarrow> container set" where
  "gather_body sv cs forward result c =
     (let deps = (if forward then requires (sv (service c)) else needed_for (sv (service c)));
          deps' = foldl (\<lambda>x y. x \<union> y) {} (map (\<lambda>s. set (containers (sv s))) deps)
      in result \<union> (deps' \<inter> cs))"

text \<open>
  \<^verbatim>\<open>for container in result:\<close> takes its iterator from the set object that \<^verbatim>\<open>result\<close>
  names when the loop starts, which is \<^verbatim>\<open>set([container])\<close>. The body rebinds the name
  \<^verbatim>\<open>result\<close> to a new set (\<^verbatim>\<open>result.union(...)\<close> does not mutate), so the iterated set
  never changes: the loop runs over the one-element list \<open>[container]\<close>, and the loop
  variable, which shadows the parameter, ends as that same element.
\<close>

definition gather_dependencies :: "services \<Rightarrow> container list \<Rightarrow> bool \<Rightarrow> container \<Rightarrow> py_error + container set" where
  "gather_dependencies sv play_containers forward container =
     (let cs = set play_containers;
          iterated = [container];
          result = foldl (gather_body sv cs forward) {container} iterated;
          loop_var = last iterated
      in set_remove loop_var result)"

text \<open>
  The value stored for one container by \<^verbatim>\<open>__init__\<close>:
  \<^verbatim>\<open>respect_dependencies and self._gather_dependencies(c) or set()\<close>. An empty result
  of the resolver is falsy, so \<^verbatim>\<open>or\<close> replaces it by a fresh empty set.
\<close>

definition dependency_entry :: "services \<Rightarrow> container list \<Rightarrow> bool \<Rightarrow> bool \<Rightarrow> container \<Rightarrow> py_error + container set" where
  "dependency_entry sv play_containers forward respect_dependencies c =
     (if respect_dependencies
      then (case gather_dependencies sv play_containers forward c of
              Inl e \<Rightarrow> Inl e
            | Inr g \<Rightarrow> Inr (if g \<noteq> {} then g else {}))
      else Inr {})"

text \<open>
  \<^verbatim>\<open>dict(... for c in containers)\<close>: the pairs are stored in list order, a later pair
  with the same name replacing an earlier one.
\<close>

fun build_dependencies :: "services \<Rightarrow> container list \<Rightarrow> bool \<Rightarrow> bool \<Rightarrow> container list
    \<Rightarrow> (string \<rightharpoonup> container set) \<Rightarrow> py_error + (string \<rightharpoonup> container set)" where
  "build_dependencies sv pcs forward rd [] m = Inr m"
| "build_dependencies sv pcs forward rd (c # cs) m =
     (case dependency_entry sv pcs forward rd c of
        Inl e \<Rightarrow> Inl e
      | Inr d \<Rightarrow> build_dependencies sv pcs forward rd cs (m(name c \<mapsto> d)))"

section \<open>The play object\<close>

record play =
  play_containers :: "container list"
  play_forward :: bool
  play_dependencies :: "string \<rightharpoonup> container set"
  play_threads :: "nat set"
  play_done :: "container set"
  play_error :: "failure option"

text \<open>\<^verbatim>\<open>BaseOrchestrationPlay.__init__\<close> (the output manager and the condition variable
  are part of the scheduler state below).\<close>

definition init :: "services \<Rightarrow> container list \<Rightarrow> bool \<Rightarrow> bool \<Rightarrow> py_error + play" where
  "init sv cs forward respect_dependencies =
     (case build_dependencies sv cs forward respect_dependencies cs Map.empty of
        Inl e \<Rightarrow> Inl e
      | Inr deps \<Rightarrow> Inr \<lparr> play_containers = cs, play_forward = forward,
                        play_dependencies = deps, play_threads = {},
                        play_done = {}, play_error = None \<rparr>)"

text \<open>\<^verbatim>\<open>Status.__init__\<close>, \<^verbatim>\<open>Start.__init__\<close>, \<^verbatim>\<open>Stop.__init__\<close> and
  \<^verbatim>\<open>FullStatus.__init__\<close> call the base constructor with these arguments.\<close>

definition Status_init :: "services \<Rightarrow> container list \<Rightarrow> py_error + play" where
  "Status_init sv cs = init sv cs True False"

definition Start_init :: "services \<Rightarrow> container list \<Rightarrow> py_error + play" where
  "Start_init sv cs = init sv cs True True"

definition Stop_init :: "services \<Rightarrow> container list \<Rightarrow> py_error + play" where
  "Stop_init sv cs = init sv cs False True"

definition FullStatus_init :: "services \<Rightarrow> container list \<Rightarrow> py_error + play" where
  "FullStatus_init sv cs = init sv cs True True"

text \<open>\<^verbatim>\<open>_satisfied\<close>: the dictionary lookup raises \<^verbatim>\<open>KeyError\<close> for a missing name.
  A Python set is finite, so \<^verbatim>\<open>len(missing) == 0\<close> says that \<open>missing\<close> is empty.\<close>

definition satisfied :: "play \<Rightarrow> container \<Rightarrow> py_error + bool" where
  "satisfied p c =
     (case play_dependencies p (name c) of
        None \<Rightarrow> Inl (KeyError (name c))
      | Some deps \<Rightarrow> (let missing = deps - play_done p in Inr (missing = {})))"

section \<open>The intended closure\<close>

text \<open>
  The relation the docstring of \<^verbatim>\<open>_gather_dependencies\<close> and the specification
  describe: \<open>d\<close> is a direct dependency of \<open>c\<close> when \<open>d\<close> is in the play and is a
  member of a service that the service of \<open>c\<close> requires (forward) or is needed for
  (backward); the transitive dependencies follow this relation repeatedly.
\<close>

definition direct_dependency :: "services \<Rightarrow> container list \<Rightarrow> bool \<Rightarrow> container \<Rightarrow> container \<Rightarrow> bool" where
  "direct_dependency sv pcs forward c d =
     (d \<in> set pcs \<and>
      (\<exists>s \<in> set (if forward then requires (sv (service c)) else needed_for (sv (service c))).
         d \<in> set (containers (sv s))))"

inductive transitive_dependency :: "services \<Rightarrow> container list \<Rightarrow> bool \<Rightarrow> container \<Rightarrow> container \<Rightarrow> bool"
  for sv :: services and pcs :: "container list" and forward :: bool and c :: container where
  direct: "direct_dependency sv pcs forward c d \<Longrightarrow> transitive_dependency sv pcs forward c d"
| further: "transitive_dependency sv pcs forward c e \<Longrightarrow> direct_dependency sv pcs forward e d
     \<Longrightarrow> transitive_dependency sv pcs forward c d"

section \<open>The scheduler: workers, the monitor and the main thread\<close>

text \<open>
  \<^verbatim>\<open>register\<close> starts one thread per task, all running \<^verbatim>\<open>act\<close>; the main thread
  runs \<^verbatim>\<open>start\<close>, the calls of \<^verbatim>\<open>register\<close> and \<^verbatim>\<open>end\<close>. The threads share the
  play object and the condition variable \<^verbatim>\<open>_cv\<close>. The model is an interleaving of
  atomic steps, one per statement (the loop condition of \<^verbatim>\<open>act\<close> is two steps, one per
  conjunct, and \<^verbatim>\<open>wait\<close> is two steps, giving up the monitor and taking it again).
  Every choice that the program does not make itself (which thread runs next, how a
  task ends, when an interrupt arrives, in which order the set \<^verbatim>\<open>_threads\<close> is
  iterated) is the label of the step, so that a step is a function.
\<close>

datatype tid = MainThread | WorkerThread nat

text \<open>Calls on output formatters, on the output manager and on \<^verbatim>\<open>stderr\<close>, and the
  operations on the monitor, as they are observed. The formatted strings are kept as
  constructors with the values that the format string is filled with.\<close>

datatype formatter = Task_output nat | Row nat container | Port_row

datatype message =
    Waiting | Aborted
  | Checking_container | Container_cell bool string
  | Checking_service | Service_cell bool
  | Newline | Port_pending string string | Port_cell bool string string
  | Host_down

datatype event =
    Pending formatter message | Commit formatter message
  | Acquire | Release | Wait | NotifyAll
  | Task_run
  | Print_header | Om_start | Om_end
  | Stderr failure

text \<open>How a thread can end other than by returning: \<^verbatim>\<open>_satisfied\<close> raised
  \<^verbatim>\<open>KeyError\<close>, or the task raised something that is not an \<^verbatim>\<open>Exception\<close>, which
  \<^verbatim>\<open>except Exception\<close> lets through after the \<^verbatim>\<open>finally\<close> block.\<close>

datatype crash = Uncaught_KeyError string | Uncaught_base string

text \<open>The program counter of a worker, by the line of \<^verbatim>\<open>act\<close> it executes next.\<close>

datatype wpc =
    W_Pending                    \<comment> \<open>line 61\<close>
  | W_Acquire                    \<comment> \<open>line 65\<close>
  | W_TestSatisfied              \<comment> \<open>line 66, \<^verbatim>\<open>not self._satisfied(task.container)\<close>\<close>
  | W_TestError                  \<comment> \<open>line 66, \<^verbatim>\<open>not self._error\<close>\<close>
  | W_Wait                       \<comment> \<open>line 67, \<^verbatim>\<open>wait\<close> gives up the monitor\<close>
  | W_Waiting                    \<comment> \<open>line 67, \<^verbatim>\<open>wait\<close> takes the monitor again\<close>
  | W_Release                    \<comment> \<open>line 68\<close>
  | W_CheckAbort                 \<comment> \<open>line 71\<close>
  | W_CommitAborted              \<comment> \<open>lines 72 and 73\<close>
  | W_Run                        \<comment> \<open>line 76, the call\<close>
  | W_Running                    \<comment> \<open>line 76, inside \<^verbatim>\<open>task.run()\<close>\<close>
  | W_AddDone                    \<comment> \<open>line 77\<close>
  | W_SetError failure           \<comment> \<open>line 79\<close>
  | W_FinAcquire "string option" \<comment> \<open>line 81; the argument is an exception in flight\<close>
  | W_NotifyAll "string option"  \<comment> \<open>line 82\<close>
  | W_FinRelease "string option" \<comment> \<open>line 83\<close>
  | W_Returned
  | W_Crashed crash

record worker =
  task_container :: container
  pc :: wpc

text \<open>The program counter of the main thread; in \<^verbatim>\<open>end\<close> it carries the thread of
  the current iteration and the threads still to come.\<close>

datatype mpc =
    M_Start                      \<comment> \<open>lines 45 to 47\<close>
  | M_Registering                \<comment> \<open>between \<^verbatim>\<open>start\<close> and \<^verbatim>\<open>end\<close>\<close>
  | M_Next "nat list"            \<comment> \<open>line 93\<close>
  | M_TestError nat "nat list"   \<comment> \<open>line 95, \<^verbatim>\<open>not self._error\<close>\<close>
  | M_TestAlive nat "nat list"   \<comment> \<open>line 95, \<^verbatim>\<open>t.isAlive()\<close>\<close>
  | M_Join nat "nat list"        \<comment> \<open>line 96\<close>
  | M_SetError failure "nat list" \<comment> \<open>lines 98 and 100\<close>
  | M_FinAcquire "nat list"      \<comment> \<open>line 102\<close>
  | M_NotifyAll "nat list"       \<comment> \<open>line 103\<close>
  | M_FinRelease "nat list"      \<comment> \<open>line 104\<close>
  | M_OmEnd                      \<comment> \<open>line 105\<close>
  | M_Report                     \<comment> \<open>lines 108 and 109\<close>
  | M_Done

record system =
  the_play :: play
  monitor :: "tid option"
  workers :: "worker list"
  main_pc :: mpc
  trace :: "(tid \<times> event) list"

definition boot :: "play \<Rightarrow> system" where
  "boot p = \<lparr> the_play = p, monitor = None, workers = [], main_pc = M_Start, trace = [] \<rparr>"

definition log :: "tid \<Rightarrow> event \<Rightarrow> system \<Rightarrow> system" where
  "log t e s = s\<lparr> trace := trace s @ [(t, e)] \<rparr>"

definition set_pc :: "nat \<Rightarrow> wpc \<Rightarrow> system \<Rightarrow> system" where
  "set_pc i q s = s\<lparr> workers := (workers s)[i := (workers s ! i)\<lparr> pc := q \<rparr>] \<rparr>"

definition set_monitor :: "tid option \<Rightarrow> system \<Rightarrow> system" where
  "set_monitor m s = s\<lparr> monitor := m \<rparr>"

definition set_error :: "failure \<Rightarrow> system \<Rightarrow> system" where
  "set_error f s = s\<lparr> the_play := (the_play s)\<lparr> play_error := Some f \<rparr> \<rparr>"

definition add_done :: "container \<Rightarrow> system \<Rightarrow> system" where
  "add_done c s = s\<lparr> the_play := (the_play s)\<lparr> play_done := insert c (play_done (the_play s)) \<rparr> \<rparr>"

definition set_main :: "mpc \<Rightarrow> system \<Rightarrow> system" where
  "set_main q s = s\<lparr> main_pc := q \<rparr>"

definition the_error :: "system \<Rightarrow> failure option" where
  "the_error s = play_error (the_play s)"

text \<open>\<^verbatim>\<open>t.isAlive()\<close>: the thread has been started and has not ended.\<close>

fun running_pc :: "wpc \<Rightarrow> bool" where
  "running_pc W_Returned = False"
| "running_pc (W_Crashed _) = False"
| "running_pc _ = True"

definition isAlive :: "system \<Rightarrow> nat \<Rightarrow> bool" where
  "isAlive s t = (t < length (workers s) \<and> running_pc (pc (workers s ! t)))"

text \<open>
  One statement of \<^verbatim>\<open>act\<close> for worker \<open>i\<close> at program counter \<open>q\<close>. \<open>None\<close> means that
  the thread cannot take a step now: it is blocked on the monitor, it is inside
  \<^verbatim>\<open>task.run()\<close> (how the task ends is a step of its own), or it has ended.
\<close>

fun worker_next :: "nat \<Rightarrow> wpc \<Rightarrow> system \<Rightarrow> system option" where
  "worker_next i W_Pending s =
     Some (set_pc i W_Acquire (log (WorkerThread i) (Pending (Task_output i) Waiting) s))"
| "worker_next i W_Acquire s =
     (if monitor s = None
      then Some (set_pc i W_TestSatisfied
                  (log (WorkerThread i) Acquire (set_monitor (Some (WorkerThread i)) s)))
      else None)"
| "worker_next i W_TestSatisfied s =
     (case satisfied (the_play s) (task_container (workers s ! i)) of
        Inl (KeyError k) \<Rightarrow> Some (set_pc i (W_Crashed (Uncaught_KeyError k)) s)
      | Inr sat \<Rightarrow> Some (set_pc i (if \<not> sat then W_TestError else W_Release) s))"
| "worker_next i W_TestError s =
     Some (set_pc i (if the_error s = None then W_Wait else W_Release) s)"
| "worker_next i W_Wait s =
     Some (set_pc i W_Waiting (log (WorkerThread i) Wait (set_monitor None s)))"
| "worker_next i W_Waiting s =
     (if monitor s = None
      then Some (set_pc i W_TestSatisfied (set_monitor (Some (WorkerThread i)) s))
      else None)"
| "worker_next i W_Release s =
     Some (set_pc i W_CheckAbort (log (WorkerThread i) Release (set_monitor None s)))"
| "worker_next i W_CheckAbort s =
     Some (set_pc i (if the_error s \<noteq> None then W_CommitAborted else W_Run) s)"
| "worker_next i W_CommitAborted s =
     Some (set_pc i W_Returned (log (WorkerThread i) (Commit (Task_output i) Aborted) s))"
| "worker_next i W_Run s =
     Some (set_pc i W_Running (log (WorkerThread i) Task_run s))"
| "worker_next i W_Running s = None"
| "worker_next i W_AddDone s =
     Some (set_pc i (W_FinAcquire None) (add_done (task_container (workers s ! i)) s))"
| "worker_next i (W_SetError e) s =
     Some (set_pc i (W_FinAcquire None) (set_error e s))"
| "worker_next i (W_FinAcquire u) s =
     (if monitor s = None
      then Some (set_pc i (W_NotifyAll u)
                  (log (WorkerThread i) Acquire (set_monitor (Some (WorkerThread i)) s)))
      else None)"
| "worker_next i (W_NotifyAll u) s =
     Some (set_pc i (W_FinRelease u) (log (WorkerThread i) NotifyAll s))"
| "worker_next i (W_FinRelease u) s =
     Some (set_pc i (case u of None \<Rightarrow> W_Returned | Some b \<Rightarrow> W_Crashed (Uncaught_base b))
            (log (WorkerThread i) Release (set_monitor None s)))"
| "worker_next i W_Returned s = None"
| "worker_next i (W_Crashed _) s = None"

text \<open>One statement of \<^verbatim>\<open>start\<close> or \<^verbatim>\<open>end\<close> in the main thread.\<close>

fun main_next :: "mpc \<Rightarrow> system \<Rightarrow> system option" where
  "main_next M_Start s =
     Some (set_main M_Registering (log MainThread Om_start (log MainThread Print_header s)))"
| "main_next M_Registering s = None"
| "main_next (M_Next []) s = Some (set_main M_OmEnd s)"
| "main_next (M_Next (t # ts)) s = Some (set_main (M_TestError t ts) s)"
| "main_next (M_TestError t ts) s =
     Some (set_main (if the_error s = None then M_TestAlive t ts else M_FinAcquire ts) s)"
| "main_next (M_TestAlive t ts) s =
     Some (set_main (if isAlive s t then M_Join t ts else M_FinAcquire ts) s)"
| "main_next (M_Join t ts) s = Some (set_main (M_TestError t ts) s)"
| "main_next (M_SetError e ts) s = Some (set_main (M_FinAcquire ts) (set_error e s))"
| "main_next (M_FinAcquire ts) s =
     (if monitor s = None
      then Some (set_main (M_NotifyAll ts) (log MainThread Acquire (set_monitor (Some MainThread) s)))
      else None)"
| "main_next (M_NotifyAll ts) s = Some (set_main (M_FinRelease ts) (log MainThread NotifyAll s))"
| "main_next (M_FinRelease ts) s =
     Some (set_main (M_Next ts) (log MainThread Release (set_monitor None s)))"
| "main_next M_OmEnd s = Some (set_main M_Report (log MainThread Om_end s))"
| "main_next M_Report s =
     (case the_error s of
        None \<Rightarrow> Some (set_main M_Done s)
      | Some e \<Rightarrow> Some (set_main M_Done (log MainThread (Stderr e) s)))"
| "main_next M_Done s = None"

text \<open>An exception arriving in the main thread inside the \<^verbatim>\<open>try\<close> of \<^verbatim>\<open>end\<close>
  (lines 95 and 96) leads to the handler that stores \<open>e\<close>.\<close>

fun main_raise :: "failure \<Rightarrow> mpc \<Rightarrow> system \<Rightarrow> system option" where
  "main_raise e (M_TestError t ts) s = Some (set_main (M_SetError e ts) s)"
| "main_raise e (M_TestAlive t ts) s = Some (set_main (M_SetError e ts) s)"
| "main_raise e (M_Join t ts) s = Some (set_main (M_SetError e ts) s)"
| "main_raise e _ s = None"

datatype action =
    Main_step                  \<comment> \<open>the main thread executes its next statement\<close>
  | Main_register container    \<comment> \<open>\<^verbatim>\<open>register(task)\<close> for a task on this container\<close>
  | Main_end "nat list"        \<comment> \<open>\<^verbatim>\<open>end()\<close> is entered; the order in which \<^verbatim>\<open>_threads\<close> is iterated\<close>
  | Main_interrupt             \<comment> \<open>\<^verbatim>\<open>KeyboardInterrupt\<close> inside the \<^verbatim>\<open>try\<close> of \<^verbatim>\<open>end\<close>\<close>
  | Main_raises string         \<comment> \<open>an \<^verbatim>\<open>Exception\<close> inside the \<^verbatim>\<open>try\<close> of \<^verbatim>\<open>end\<close>\<close>
  | Worker_step nat            \<comment> \<open>worker \<open>i\<close> executes its next statement\<close>
  | Task_returns nat           \<comment> \<open>\<^verbatim>\<open>task.run()\<close> of worker \<open>i\<close> returns\<close>
  | Task_raises nat string     \<comment> \<open>it raises an \<^verbatim>\<open>Exception\<close>\<close>
  | Task_raises_base nat string \<comment> \<open>it raises an exception that is not an \<^verbatim>\<open>Exception\<close>\<close>

definition task_ends :: "nat \<Rightarrow> wpc \<Rightarrow> system \<Rightarrow> system option" where
  "task_ends i q s =
     (if i < length (workers s) \<and> pc (workers s ! i) = W_Running then Some (set_pc i q s) else None)"

text \<open>\<^verbatim>\<open>register\<close> (lines 85 to 88): the new thread is the next index of \<open>workers\<close>.\<close>

definition register :: "container \<Rightarrow> system \<Rightarrow> system" where
  "register c s =
     s\<lparr> workers := workers s @ [\<lparr> task_container = c, pc = W_Pending \<rparr>],
        the_play := (the_play s)\<lparr> play_threads := insert (length (workers s)) (play_threads (the_play s)) \<rparr> \<rparr>"

fun step :: "system \<Rightarrow> action \<Rightarrow> system option" where
  "step s Main_step = main_next (main_pc s) s"
| "step s (Main_register c) = (if main_pc s = M_Registering then Some (register c s) else None)"
| "step s (Main_end ts) =
     (if main_pc s = M_Registering \<and> distinct ts \<and> set ts = play_threads (the_play s)
      then Some (set_main (M_Next ts) s) else None)"
| "step s Main_interrupt = main_raise ManualAbort (main_pc s) s"
| "step s (Main_raises e) = main_raise (Exception e) (main_pc s) s"
| "step s (Worker_step i) =
     (if i < length (workers s) then worker_next i (pc (workers s ! i)) s else None)"
| "step s (Task_returns i) = task_ends i W_AddDone s"
| "step s (Task_raises i e) = task_ends i (W_SetError (Exception e)) s"
| "step s (Task_raises_base i b) = task_ends i (W_FinAcquire (Some b)) s"

fun exec :: "system \<Rightarrow> action list \<Rightarrow> system option" where
  "exec s [] = Some s"
| "exec s (a # as) = (case step s a of None \<Rightarrow> None | Some s' \<Rightarrow> exec s' as)"

text \<open>What one thread did, in order.\<close>

definition thread_trace :: "system \<Rightarrow> tid \<Rightarrow> event list" where
  "thread_trace s t = map snd (filter (\<lambda>x. fst x = t) (trace s))"

section \<open>The sequential play FullStatus\<close>

text \<open>
  \<^verbatim>\<open>FullStatus.run\<close> asks each container for its status and pings its ports. What a
  container answers is a parameter: \<^verbatim>\<open>status()\<close> raises or returns a status, which is
  falsy (\<open>None\<close>) or a dictionary whose \<^verbatim>\<open>['State']['Running']\<close> is the flag;
  \<^verbatim>\<open>ports.items()\<close> is a list of names with the text \<^verbatim>\<open>port['external'][1]\<close>;
  \<^verbatim>\<open>ping_port(name)\<close> raises or returns a flag. What is raised is either an
  \<^verbatim>\<open>Exception\<close>, which \<^verbatim>\<open>except Exception\<close> catches, or an exception outside that
  class (\<^verbatim>\<open>KeyboardInterrupt\<close>, \<^verbatim>\<open>SystemExit\<close>), which it lets through. The calls on
  the formatters themselves are taken not to raise.
\<close>

datatype 'a outcome = Returns 'a | Raises string | Raises_base string

record probe =
  status_result :: "bool option outcome"
  container_id :: string
  ports :: "(string \<times> string) list"
  ping_result :: "string \<Rightarrow> bool outcome"

type_synonym inspector = "container \<Rightarrow> probe"

text \<open>How the \<^verbatim>\<open>try\<close> block of lines 161 to 181 ends: it runs to its end, an
  \<^verbatim>\<open>Exception\<close> takes it to the handler of line 183, or another exception leaves it
  and the method.\<close>

datatype try_end = Completed | Caught | Escaped string

text \<open>
  The loop over the ports (lines 174 to 181), started with the formatter \<open>fmt\<close> that
  \<^verbatim>\<open>o\<close> names. It returns the formatter that \<^verbatim>\<open>o\<close> names at the end, the calls made,
  and how the loop ended: an exception of \<^verbatim>\<open>ping_port\<close> ends it at that port.
\<close>

fun ports_loop :: "probe \<Rightarrow> formatter \<Rightarrow> (string \<times> string) list \<Rightarrow> formatter \<times> event list \<times> try_end" where
  "ports_loop pr fmt [] = (fmt, [], Completed)"
| "ports_loop pr fmt ((port_name, ext) # rest) =
     (let out = [Commit fmt Newline, Pending Port_row (Port_pending ext port_name)] in
      case ping_result pr port_name of
        Raises e \<Rightarrow> (Port_row, out, Caught)
      | Raises_base b \<Rightarrow> (Port_row, out, Escaped b)
      | Returns ping \<Rightarrow>
          (case ports_loop pr Port_row rest of
             (fmt', outs, ended) \<Rightarrow>
               (fmt', out @ [Commit Port_row (Port_cell ping ext port_name)] @ outs, ended)))"

text \<open>
  The body of the loop of \<^verbatim>\<open>FullStatus.run\<close> for one container (lines 154 to 184): the
  calls made, and the exception that leaves the body, if any.
  \<^verbatim>\<open>status and status['State']['Running']\<close> is truthy exactly for a status whose
  flag is set; \<^verbatim>\<open>... and container.id[:7] or 'down'\<close> falls back to \<^verbatim>\<open>'down'\<close> also
  when the identifier is empty. The handler of \<^verbatim>\<open>except Exception\<close> and the final
  \<^verbatim>\<open>o.commit('\n')\<close> use the formatter that \<^verbatim>\<open>o\<close> names at that moment; an
  exception that is not caught skips both.
\<close>

definition inspect :: "nat \<Rightarrow> container \<Rightarrow> probe \<Rightarrow> event list \<times> string option" where
  "inspect order c pr =
     (let fmt = Row order c;
          first = [Pending fmt Checking_container]
      in case status_result pr of
           Raises e \<Rightarrow> (first @ [Commit fmt Host_down, Commit fmt Newline], None)
         | Raises_base b \<Rightarrow> (first, Some b)
         | Returns status \<Rightarrow>
             (let running = (status = Some True);
                  cell = (if running \<and> take 7 (container_id pr) \<noteq> []
                          then take 7 (container_id pr) else ''down'');
                  checked = first @ [Commit fmt (Container_cell running cell),
                                     Pending fmt Checking_service,
                                     Commit fmt (Service_cell running)]
              in case ports_loop pr fmt (ports pr) of
                   (fmt', outs, Completed) \<Rightarrow> (checked @ outs @ [Commit fmt' Newline], None)
                 | (fmt', outs, Caught) \<Rightarrow>
                     (checked @ outs @ [Commit fmt' Host_down, Commit fmt' Newline], None)
                 | (fmt', outs, Escaped b) \<Rightarrow> (checked @ outs, Some b)))"

text \<open>The loop of line 153 over \<^verbatim>\<open>enumerate(self._containers, 1)\<close>, all in the main
  thread: it returns the state and the exception that ended it early, if any.\<close>

fun FullStatus_loop :: "inspector \<Rightarrow> (nat \<times> container) list \<Rightarrow> system \<Rightarrow> system \<times> string option" where
  "FullStatus_loop insp [] s = (s, None)"
| "FullStatus_loop insp ((order, c) # rest) s =
     (case inspect order c (insp c) of
        (evs, None) \<Rightarrow>
          FullStatus_loop insp rest (s\<lparr> trace := trace s @ map (Pair MainThread) evs \<rparr>)
      | (evs, Some b) \<Rightarrow> (s\<lparr> trace := trace s @ map (Pair MainThread) evs \<rparr>, Some b))"

text \<open>How \<^verbatim>\<open>run\<close> ends: it returns, or an exception leaves it.\<close>

datatype run_end = Run_finished system | Run_escaped string system

fun run_state :: "run_end \<Rightarrow> system" where
  "run_state (Run_finished s) = s"
| "run_state (Run_escaped b s) = s"

fun run_escape :: "run_end \<Rightarrow> string option" where
  "run_escape (Run_finished s) = None"
| "run_escape (Run_escaped b s) = Some b"

text \<open>
  \<^verbatim>\<open>FullStatus.run\<close>: \<^verbatim>\<open>start\<close>, the loop, \<^verbatim>\<open>end\<close>. No task is registered, so
  \<^verbatim>\<open>_threads\<close> is empty and \<^verbatim>\<open>end\<close> is three statements of the main thread: the loop
  over no thread, \<^verbatim>\<open>self._om.end()\<close> and the test of \<^verbatim>\<open>self._error\<close>. An exception
  that leaves the loop of line 153 leaves \<^verbatim>\<open>run\<close> before \<^verbatim>\<open>end\<close> is called.
\<close>

definition FullStatus_run :: "inspector \<Rightarrow> system \<Rightarrow> run_end option" where
  "FullStatus_run insp s =
     (case step s Main_step of
        None \<Rightarrow> None
      | Some s1 \<Rightarrow>
          (case FullStatus_loop insp (enumerate 1 (play_containers (the_play s1))) s1 of
             (s2, Some b) \<Rightarrow> Some (Run_escaped b s2)
           | (s2, None) \<Rightarrow>
               map_option Run_finished (exec s2 [Main_end [], Main_step, Main_step, Main_step])))"

section \<open>Example plays and schedules\<close>

text \<open>Service \<open>c\<close> requires \<open>b\<close>, which requires \<open>a\<close>; service \<open>d\<close> stands alone. Each
  service has one container.\<close>

definition cA :: container where "cA = \<lparr> name = ''A'', service = ''a'' \<rparr>"
definition cB :: container where "cB = \<lparr> name = ''B'', service = ''b'' \<rparr>"
definition cC :: container where "cC = \<lparr> name = ''C'', service = ''c'' \<rparr>"
definition cD :: container where "cD = \<lparr> name = ''D'', service = ''d'' \<rparr>"

definition chain :: services where
  "chain s =
     (if s = ''a'' then \<lparr> requires = [], needed_for = [''b''], containers = [cA] \<rparr>
      else if s = ''b'' then \<lparr> requires = [''a''], needed_for = [''c''], containers = [cB] \<rparr>
      else if s = ''c'' then \<lparr> requires = [''b''], needed_for = [], containers = [cC] \<rparr>
      else if s = ''d'' then \<lparr> requires = [], needed_for = [], containers = [cD] \<rparr>
      else \<lparr> requires = [], needed_for = [], containers = [] \<rparr>)"

text \<open>A forward play on \<open>A\<close> and \<open>B\<close>, where \<open>B\<close> waits for \<open>A\<close>, and one on \<open>A\<close> and
  \<open>D\<close>, which do not depend on each other.\<close>

definition play_AB :: play where
  "play_AB = \<lparr> play_containers = [cA, cB], play_forward = True,
               play_dependencies = [''A'' \<mapsto> {}, ''B'' \<mapsto> {cA}], play_threads = {},
               play_done = {}, play_error = None \<rparr>"

definition play_AD :: play where
  "play_AD = \<lparr> play_containers = [cA, cD], play_forward = True,
               play_dependencies = [''A'' \<mapsto> {}, ''D'' \<mapsto> {}], play_threads = {},
               play_done = {}, play_error = None \<rparr>"

text \<open>Six statements take a worker that never waits from its start into its task.\<close>

definition into_task :: "nat \<Rightarrow> action list" where
  "into_task i = replicate 6 (Worker_step i)"

text \<open>\<open>A\<close> and \<open>D\<close> both run; the task of \<open>A\<close> fails and its worker stores the
  failure, while \<open>D\<close> is still in its task.\<close>

definition one_failure :: "action list" where
  "one_failure = [Main_step, Main_register cA, Main_register cD] @ into_task 0 @ into_task 1
     @ [Task_raises 0 ''first'', Worker_step 0]"

text \<open>Then the task of \<open>D\<close> fails too and its worker stores its own failure.\<close>

definition two_failures :: "action list" where
  "two_failures = one_failure @ [Task_raises 1 ''second'', Worker_step 1]"

text \<open>\<open>A\<close> fails while \<open>D\<close> is still in its task; then \<^verbatim>\<open>end\<close> runs to its last line.\<close>

definition early_end :: "action list" where
  "early_end = [Main_step, Main_register cA, Main_register cD] @ into_task 0 @ into_task 1
     @ [Task_raises 0 ''boom'', Worker_step 0, Main_end [0, 1]] @ replicate 13 Main_step"

text \<open>\<open>B\<close> waits for \<open>A\<close>; the task of \<open>A\<close> fails, its worker goes through the
  \<^verbatim>\<open>finally\<close> block and returns; \<open>B\<close> wakes up, sees the error and returns.\<close>

definition abort_after_failure :: "action list" where
  "abort_after_failure = [Main_step, Main_register cA, Main_register cB] @ into_task 0
     @ replicate 5 (Worker_step 1)
     @ [Task_raises 0 ''boom''] @ replicate 4 (Worker_step 0)
     @ replicate 6 (Worker_step 1)"

text \<open>The worker of \<open>A\<close> has left the monitor and is about to test the error slot.\<close>

definition A_checks :: "action list" where
  "A_checks = [Main_step, Main_register cA] @ replicate 4 (Worker_step 0)"

text \<open>The task of \<open>A\<close> returns and its worker ends; then \<open>B\<close> goes into its task.\<close>

definition A_then_B :: "action list" where
  "A_then_B = [Main_step, Main_register cA, Main_register cB] @ into_task 0
     @ [Task_returns 0] @ replicate 4 (Worker_step 0) @ into_task 1"

text \<open>Then the task of \<open>B\<close> returns too, and \<^verbatim>\<open>end\<close> joins both threads.\<close>

definition clean_end :: "action list" where
  "clean_end = A_then_B @ [Task_returns 1] @ replicate 4 (Worker_step 1)
     @ [Main_end [1, 0]] @ replicate 15 Main_step"

text \<open>A task on \<open>D\<close> is registered with a play that was built for \<open>A\<close> and \<open>B\<close>.\<close>

definition foreign_task :: "action list" where
  "foreign_task = [Main_step, Main_register cD] @ replicate 3 (Worker_step 0)"

text \<open>Containers that do not answer, or whose port does not.\<close>

definition silent :: inspector where
  "silent c =
     (if c = cA then \<lparr> status_result = Raises ''timeout'', container_id = ''0123456789'',
                        ports = [], ping_result = (\<lambda>n. Returns True) \<rparr>
      else \<lparr> status_result = Returns (Some True), container_id = ''abcdef012345'',
             ports = [(''http'', ''8080''), (''admin'', ''8081'')],
             ping_result = (\<lambda>n. if n = ''http'' then Returns True else Raises ''refused'') \<rparr>)"

text \<open>The user interrupts the inspection of \<open>A\<close> during \<^verbatim>\<open>status()\<close>, or that of
  \<open>B\<close> during the ping of its second port; the other containers answer.\<close>

definition interrupted :: inspector where
  "interrupted c =
     (if c = cA then \<lparr> status_result = Raises_base ''KeyboardInterrupt'', container_id = ''0123456789'',
                        ports = [], ping_result = (\<lambda>n. Returns True) \<rparr>
      else if c = cB then \<lparr> status_result = Returns (Some True), container_id = ''abcdef012345'',
             ports = [(''http'', ''8080''), (''admin'', ''8081'')],
             ping_result = (\<lambda>n. if n = ''http'' then Returns True else Raises_base ''KeyboardInterrupt'') \<rparr>
      else \<lparr> status_result = Returns (Some True), container_id = ''fedcba987654'',
             ports = [(''http'', ''8080'')], ping_result = (\<lambda>n. Returns True) \<rparr>)"

section \<open>Notions used in the statements and proofs\<close>

text \<open>What \<^verbatim>\<open>__init__\<close> stores for a container, in closed form, and the storing of
  one entry of the dictionary.\<close>

definition entry_of :: "services \<Rightarrow> container list \<Rightarrow> bool \<Rightarrow> bool \<Rightarrow> container \<Rightarrow> container set" where
  "entry_of sv pcs forward rd c =
     (if rd then {d. direct_dependency sv pcs forward c d} - {c} else {})"

definition put_entry :: "(container \<Rightarrow> container set) \<Rightarrow> (string \<rightharpoonup> container set) \<Rightarrow> container
    \<Rightarrow> (string \<rightharpoonup> container set)" where
  "put_entry f m c = m(name c \<mapsto> f c)"

text \<open>What a step may do to the play object: the dictionary, the containers and the
  direction stay, \<^verbatim>\<open>_done\<close> grows and a set \<^verbatim>\<open>_error\<close> stays set.\<close>

definition play_grows :: "play \<Rightarrow> play \<Rightarrow> bool" where
  "play_grows p p' =
     (play_dependencies p' = play_dependencies p \<and> play_containers p' = play_containers p \<and>
      play_forward p' = play_forward p \<and>
      play_done p \<subseteq> play_done p' \<and> (play_error p \<noteq> None \<longrightarrow> play_error p' \<noteq> None))"

text \<open>What the program counter of a worker says about its dependencies: after the loop
  they are satisfied or the error slot is set, and from the call of the task on they
  are satisfied.\<close>

definition worker_ok :: "play \<Rightarrow> worker \<Rightarrow> bool" where
  "worker_ok p w =
     ((pc w = W_Release \<or> pc w = W_CheckAbort \<longrightarrow>
         satisfied p (task_container w) = Inr True \<or> play_error p \<noteq> None) \<and>
      (pc w = W_Run \<or> pc w = W_Running \<longrightarrow> satisfied p (task_container w) = Inr True))"

definition no_premature :: "system \<Rightarrow> bool" where
  "no_premature s = (\<forall>i < length (workers s). worker_ok (the_play s) (workers s ! i))"

text \<open>What the program counter of worker \<open>i\<close> says about the events of its thread.\<close>

fun trace_ok :: "nat \<Rightarrow> wpc \<Rightarrow> event list \<Rightarrow> bool" where
  "trace_ok i W_Running tt = (Task_run \<in> set tt)"
| "trace_ok i W_AddDone tt = (Task_run \<in> set tt)"
| "trace_ok i (W_SetError e) tt = (Task_run \<in> set tt)"
| "trace_ok i (W_FinAcquire u) tt = (Task_run \<in> set tt)"
| "trace_ok i (W_NotifyAll u) tt = (Task_run \<in> set tt \<and> suffix [Acquire] tt)"
| "trace_ok i (W_FinRelease u) tt = (Task_run \<in> set tt \<and> suffix [Acquire, NotifyAll] tt)"
| "trace_ok i W_Returned tt =
     (if Task_run \<in> set tt then suffix [Acquire, NotifyAll, Release] tt
      else NotifyAll \<notin> set tt \<and> suffix [Commit (Task_output i) Aborted] tt)"
| "trace_ok i (W_Crashed (Uncaught_base b)) tt =
     (Task_run \<in> set tt \<and> suffix [Acquire, NotifyAll, Release] tt)"
| "trace_ok i _ tt = (Task_run \<notin> set tt \<and> NotifyAll \<notin> set tt)"

definition traces_ok :: "system \<Rightarrow> bool" where
  "traces_ok s =
     (\<forall>i. if i < length (workers s)
          then trace_ok i (pc (workers s ! i)) (thread_trace s (WorkerThread i))
          else thread_trace s (WorkerThread i) = [])"

text \<open>The threads that \<^verbatim>\<open>end\<close> has left behind, among the registered threads \<open>T\<close>:
  those whose iteration is over, and all of them after the loop.\<close>

fun joined :: "mpc \<Rightarrow> nat set \<Rightarrow> nat set" where
  "joined (M_Next ts) T = T - set ts"
| "joined (M_TestError t ts) T = T - set (t # ts)"
| "joined (M_TestAlive t ts) T = T - set (t # ts)"
| "joined (M_Join t ts) T = T - set (t # ts)"
| "joined (M_FinAcquire ts) T = T - set ts"
| "joined (M_NotifyAll ts) T = T - set ts"
| "joined (M_FinRelease ts) T = T - set ts"
| "joined M_OmEnd T = T"
| "joined M_Report T = T"
| "joined M_Done T = T"
| "joined _ T = {}"

definition join_ok :: "system \<Rightarrow> bool" where
  "join_ok s =
     ((\<forall>i < length (workers s). i \<in> play_threads (the_play s)) \<and>
      (the_error s = None \<longrightarrow>
         (\<forall>t \<in> joined (main_pc s) (play_threads (the_play s)). \<not> isAlive s t)))"

text \<open>What the program counter of the main thread says about its events: the
  diagnostic is the last event and follows the end of the output manager.\<close>

fun main_trace_ok :: "mpc \<Rightarrow> event list \<Rightarrow> bool" where
  "main_trace_ok M_Report tt = (suffix [Om_end] tt \<and> (\<forall>e. Stderr e \<notin> set tt))"
| "main_trace_ok M_Done tt =
     ((suffix [Om_end] tt \<and> (\<forall>e. Stderr e \<notin> set tt)) \<or>
      (\<exists>e pre. tt = pre @ [Om_end, Stderr e] \<and> (\<forall>e'. Stderr e' \<notin> set pre)))"
| "main_trace_ok _ tt = (\<forall>e. Stderr e \<notin> set tt)"

definition report_ok :: "system \<Rightarrow> bool" where
  "report_ok s = main_trace_ok (main_pc s) (thread_trace s MainThread)"

text \<open>Notions for the sequential play: a call that returns; a list of ports whose pings
  all return; the four calls that report a status that was returned; the calls made
  for a list of numbered containers; that none of their inspections is left by an
  exception; the first exception that leaves one; and the containers whose inspection
  is begun.\<close>

fun returns :: "'a outcome \<Rightarrow> bool" where
  "returns (Returns x) = True"
| "returns _ = False"

definition pings_return :: "probe \<Rightarrow> (string \<times> string) list \<Rightarrow> bool" where
  "pings_return pr ps = list_all (\<lambda>(port_name, ext). returns (ping_result pr port_name)) ps"

definition status_cells :: "nat \<Rightarrow> container \<Rightarrow> probe \<Rightarrow> bool option \<Rightarrow> event list" where
  "status_cells order c pr status =
     [Pending (Row order c) Checking_container,
      Commit (Row order c) (Container_cell (status = Some True)
        (if status = Some True \<and> take 7 (container_id pr) \<noteq> []
         then take 7 (container_id pr) else ''down'')),
      Pending (Row order c) Checking_service,
      Commit (Row order c) (Service_cell (status = Some True))]"

definition rendered :: "inspector \<Rightarrow> (nat \<times> container) list \<Rightarrow> event list" where
  "rendered insp xs = concat (map (\<lambda>(order, c). fst (inspect order c (insp c))) xs)"

definition unescaped :: "inspector \<Rightarrow> (nat \<times> container) list \<Rightarrow> bool" where
  "unescaped insp xs = list_all (\<lambda>(order, c). snd (inspect order c (insp c)) = None) xs"

fun first_escape :: "inspector \<Rightarrow> (nat \<times> container) list \<Rightarrow> string option" where
  "first_escape insp [] = None"
| "first_escape insp ((order, c) # xs) =
     (case snd (inspect order c (insp c)) of
        None \<Rightarrow> first_escape insp xs
      | Some b \<Rightarrow> Some b)"

fun inspected :: "inspector \<Rightarrow> (nat \<times> container) list \<Rightarrow> (nat \<times> container) list" where
  "inspected insp [] = []"
| "inspected insp ((order, c) # xs) =
     (order, c) # (case snd (inspect order c (insp c)) of
                     None \<Rightarrow> inspected insp xs
                   | Some b \<Rightarrow> [])"

section \<open>Properties of the dependency resolver\<close>

lemma foldl_union:
  "foldl (\<lambda>x y. x \<union> y) A Bs = A \<union> \<Union> (set Bs)"
  by (induction Bs arbitrary: A) auto

lemma gather_body_eq:
  "gather_body sv cs forward result c =
     result \<union> {d \<in> cs. \<exists>s \<in> set (if forward then requires (sv (service c)) else needed_for (sv (service c))).
                        d \<in> set (containers (sv s))}"
  by (auto simp: gather_body_def Let_def foldl_union)

lemma gather_dependencies_eq:
  "gather_dependencies sv pcs forward c =
     Inr ({d. direct_dependency sv pcs forward c d} - {c})"
  by (auto simp: gather_dependencies_def Let_def set_remove_def gather_body_eq direct_dependency_def)

lemma dependency_entry_eq:
  "dependency_entry sv pcs forward rd c =
     Inr (if rd then {d. direct_dependency sv pcs forward c d} - {c} else {})"
  by (simp add: dependency_entry_def gather_dependencies_eq)

lemma build_dependencies_eq:
  "build_dependencies sv pcs forward rd cs m =
     Inr (foldl (put_entry (entry_of sv pcs forward rd)) m cs)"
  by (induction cs arbitrary: m) (simp_all add: dependency_entry_eq entry_of_def put_entry_def)

lemma put_entries_other:
  "k \<notin> name ` set cs \<Longrightarrow> foldl (put_entry f) m cs k = m k"
  by (induction cs arbitrary: m) (auto simp: put_entry_def)

lemma put_entries_distinct:
  "distinct (map name cs) \<Longrightarrow> c \<in> set cs \<Longrightarrow> foldl (put_entry f) m cs (name c) = Some (f c)"
  by (induction cs arbitrary: m) (auto simp: put_entries_other, auto simp: put_entry_def)

lemma put_entries_some:
  "k \<in> name ` set cs \<Longrightarrow> \<exists>c' \<in> set cs. name c' = k \<and> foldl (put_entry f) m cs k = Some (f c')"
proof (induction cs arbitrary: m)
  case Nil
  then show ?case by simp
next
  case (Cons a cs)
  show ?case
  proof (cases "k \<in> name ` set cs")
    case True
    from Cons.IH[OF True, of "put_entry f m a"] show ?thesis by auto
  next
    case False
    with Cons.prems have k: "k = name a" by auto
    with False have "foldl (put_entry f) m (a # cs) k = Some (f a)"
      by (simp add: put_entries_other) (simp add: put_entry_def)
    with k show ?thesis by (intro bexI[of _ a]) simp_all
  qed
qed

lemma init_eq:
  "init sv cs forward rd =
     Inr \<lparr> play_containers = cs, play_forward = forward,
           play_dependencies = foldl (put_entry (entry_of sv cs forward rd)) Map.empty cs,
           play_threads = {}, play_done = {}, play_error = None \<rparr>"
  by (simp add: init_def build_dependencies_eq)

text \<open>
  Claim C6. For a container \<open>c\<close> of the play, the constructor succeeds and the set it
  computes for \<open>c\<close> does not contain \<open>c\<close> and lies within the containers of the play
  without \<open>c\<close>, whatever the services reach outside the play. When the names of the
  play's containers are distinct, this set is what the dictionary holds for \<open>c\<close>.
\<close>

theorem dependency_exclusion:
  assumes "c \<in> set cs"
  shows "\<exists>p D. init sv cs forward rd = Inr p \<and> dependency_entry sv cs forward rd c = Inr D \<and>
           c \<notin> D \<and> D \<subseteq> set cs - {c} \<and>
           (distinct (map name cs) \<longrightarrow> play_dependencies p (name c) = Some D)"
  using assms
  by (auto simp: init_eq dependency_entry_eq put_entries_distinct entry_of_def direct_dependency_def)

lemma play_AB_init: "Start_init chain [cA, cB] = Inr play_AB"
  by (simp add: Start_init_def init_def dependency_entry_def gather_dependencies_def gather_body_def set_remove_def chain_def cA_def cB_def play_AB_def Let_def fun_eq_iff)

theorem dependency_exclusion_witness:
  "cB \<in> set [cA, cB] \<and> dependency_entry chain [cA, cB] True True cB = Inr {cA} \<and> cB \<notin> {cA}
     \<and> {cA} \<subseteq> set [cA, cB] - {cB} \<and> distinct (map name [cA, cB]) \<and> play_dependencies play_AB (name cB) = Some {cA}"
proof -
  have mem: "cB \<in> set [cA, cB]" by simp
  have e: "dependency_entry chain [cA, cB] True True cB = Inr {cA}"
    by (simp add: dependency_entry_def gather_dependencies_def gather_body_def set_remove_def chain_def cA_def cB_def Let_def)
  have d: "distinct (map name [cA, cB])" by (simp add: cA_def cB_def)
  from dependency_exclusion [OF mem, of chain True True] e d play_AB_init
  show ?thesis by (auto simp: Start_init_def)
qed

text \<open>
  Claim C8. With \<^verbatim>\<open>respect_dependencies\<close> disabled, as \<^verbatim>\<open>Status\<close> does, the constructor
  stores the empty set for every container of the play. From then on \<^verbatim>\<open>_satisfied\<close>
  is true for it whatever \<^verbatim>\<open>_done\<close> holds, and the loop of its worker ends at its
  first test, so the worker never reaches \<^verbatim>\<open>wait\<close>.
\<close>

theorem status_no_dependencies:
  "\<exists>p. Status_init sv cs = Inr p \<and> init sv cs forward False = Inr (p\<lparr> play_forward := forward \<rparr>) \<and>
     (\<forall>c \<in> set cs. play_dependencies p (name c) = Some {} \<and>
        (\<forall>s i. play_dependencies (the_play s) = play_dependencies p \<and> task_container (workers s ! i) = c
           \<longrightarrow> satisfied (the_play s) c = Inr True \<and>
               worker_next i W_TestSatisfied s = Some (set_pc i W_Release s)))"
proof -
  have "\<exists>c' \<in> set cs. name c' = name c \<and> foldl (put_entry (entry_of sv cs True False)) Map.empty cs (name c) = Some (entry_of sv cs True False c')"
    if "c \<in> set cs" for c using that by (intro put_entries_some) simp
  then have *: "foldl (put_entry (entry_of sv cs True False)) Map.empty cs (name c) = Some {}"
    if "c \<in> set cs" for c using that by (auto simp: entry_of_def)
  have eq: "entry_of sv cs forward False = entry_of sv cs True False"
    by (simp add: entry_of_def fun_eq_iff)
  show ?thesis
    by (auto simp: Status_init_def init_eq * eq satisfied_def)
qed

theorem status_no_dependencies_witness:
  "cC \<in> set [cA, cB, cC] \<and>
   (\<exists>p. Status_init chain [cA, cB, cC] = Inr p \<and> play_dependencies p (name cC) = Some {} \<and>
        satisfied (the_play (register cC (boot p))) cC = Inr True \<and>
        worker_next 0 W_TestSatisfied (register cC (boot p)) = Some (set_pc 0 W_Release (register cC (boot p))))"
proof -
  from status_no_dependencies [of chain "[cA, cB, cC]" True]
  obtain p where p: "Status_init chain [cA, cB, cC] = Inr p"
    and all: "\<forall>c \<in> set [cA, cB, cC]. play_dependencies p (name c) = Some {} \<and>
        (\<forall>s i. play_dependencies (the_play s) = play_dependencies p \<and> task_container (workers s ! i) = c
           \<longrightarrow> satisfied (the_play s) c = Inr True \<and>
               worker_next i W_TestSatisfied s = Some (set_pc i W_Release s))"
    by blast
  have m: "cC \<in> set [cA, cB, cC]" by simp
  have d: "play_dependencies (the_play (register cC (boot p))) = play_dependencies p"
    and t: "task_container (workers (register cC (boot p)) ! 0) = cC"
    by (simp_all add: register_def boot_def)
  from all m d t p show ?thesis by blast
qed

text \<open>
  Claim C10. \<^verbatim>\<open>register\<close> relies on the task's container being one of the play: for
  such a container \<^verbatim>\<open>_satisfied\<close> returns a boolean and the worker goes on, and for a
  container whose name has no entry in the dictionary the lookup raises
  \<^verbatim>\<open>KeyError\<close>, which ends the worker inside the monitor.
\<close>

theorem register_precondition:
  assumes "init sv cs forward rd = Inr p"
    and "play_dependencies (the_play s) = play_dependencies p"
    and "task_container (workers s ! i) = c"
  shows "(c \<in> set cs \<longrightarrow>
            (\<exists>sat. satisfied (the_play s) c = Inr sat \<and>
               worker_next i W_TestSatisfied s =
                 Some (set_pc i (if \<not> sat then W_TestError else W_Release) s))) \<and>
         (name c \<notin> name ` set cs \<longrightarrow>
            satisfied (the_play s) c = Inl (KeyError (name c)) \<and>
            worker_next i W_TestSatisfied s =
              Some (set_pc i (W_Crashed (Uncaught_KeyError (name c))) s))"
proof (intro conjI impI)
  assume "c \<in> set cs"
  then have "name c \<in> name ` set cs" by simp
  from put_entries_some [OF this, of "entry_of sv cs forward rd" Map.empty] assms
  obtain D where "play_dependencies (the_play s) (name c) = Some D"
    by (auto simp: init_eq)
  with assms(3)
  show "\<exists>sat. satisfied (the_play s) c = Inr sat \<and>
          worker_next i W_TestSatisfied s =
            Some (set_pc i (if \<not> sat then W_TestError else W_Release) s)"
    by (simp add: satisfied_def Let_def)
next
  assume "name c \<notin> name ` set cs"
  then have "foldl (put_entry (entry_of sv cs forward rd)) Map.empty cs (name c) = None"
    by (simp add: put_entries_other)
  with assms have none: "play_dependencies (the_play s) (name c) = None"
    by (auto simp: init_eq)
  then show "satisfied (the_play s) c = Inl (KeyError (name c))"
    by (simp add: satisfied_def)
  from none assms(3)
  show "worker_next i W_TestSatisfied s =
          Some (set_pc i (W_Crashed (Uncaught_KeyError (name c))) s)"
    by (simp add: satisfied_def)
qed

theorem register_precondition_witness:
  "init chain [cA, cB] True True = Inr play_AB \<and>
   cA \<in> set [cA, cB] \<and> name cD \<notin> name ` set [cA, cB] \<and>
   (\<exists>sat. satisfied (the_play (register cA (boot play_AB))) cA = Inr sat) \<and>
   satisfied (the_play (register cD (boot play_AB))) cD = Inl (KeyError ''D'') \<and>
   worker_next 0 W_TestSatisfied (register cD (boot play_AB)) =
     Some (set_pc 0 (W_Crashed (Uncaught_KeyError ''D'')) (register cD (boot play_AB)))"
proof -
  have i: "init chain [cA, cB] True True = Inr play_AB"
    using play_AB_init by (simp add: Start_init_def)
  have dA: "play_dependencies (the_play (register cA (boot play_AB))) = play_dependencies play_AB"
    and dD: "play_dependencies (the_play (register cD (boot play_AB))) = play_dependencies play_AB"
    by (simp_all add: register_def boot_def)
  have tA: "task_container (workers (register cA (boot play_AB)) ! 0) = cA"
    and tD: "task_container (workers (register cD (boot play_AB)) ! 0) = cD"
    by (simp_all add: register_def boot_def)
  have m: "cA \<in> set [cA, cB]" "name cD \<notin> name ` set [cA, cB]"
    by (simp_all add: cA_def cB_def cD_def)
  have n: "name cD = ''D''" by (simp add: cD_def)
  from register_precondition [OF i dA tA] m(1)
  have A: "\<exists>sat. satisfied (the_play (register cA (boot play_AB))) cA = Inr sat" by blast
  from register_precondition [OF i dD tD] m(2)
  have D: "satisfied (the_play (register cD (boot play_AB))) cD = Inl (KeyError (name cD)) \<and>
      worker_next 0 W_TestSatisfied (register cD (boot play_AB)) =
        Some (set_pc 0 (W_Crashed (Uncaught_KeyError (name cD))) (register cD (boot play_AB)))"
    by blast
  from A D [unfolded n] i m show ?thesis by blast
qed

text \<open>
  Claim C1. The resolver is documented to gather the dependencies transitively. On the
  chain, the set computed for \<open>C\<close> is \<open>{B}\<close>, although \<open>A\<close> is a transitive dependency
  of \<open>C\<close> within the play: the loop makes one pass, so the result is the set of direct
  dependencies (\<open>gather_dependencies_eq\<close>).
\<close>

theorem gather_dependencies_one_level:
  "gather_dependencies chain [cA, cB, cC] True cC = Inr {cB} \<and>
   transitive_dependency chain [cA, cB, cC] True cC cA"
proof
  show "gather_dependencies chain [cA, cB, cC] True cC = Inr {cB}"
    by (simp add: gather_dependencies_def gather_body_def set_remove_def chain_def cA_def cB_def cC_def Let_def)
  have "direct_dependency chain [cA, cB, cC] True cC cB"
    by (simp add: direct_dependency_def chain_def cC_def)
  moreover have "direct_dependency chain [cA, cB, cC] True cB cA"
    by (simp add: direct_dependency_def chain_def cB_def)
  ultimately show "transitive_dependency chain [cA, cB, cC] True cC cA"
    by (blast intro: transitive_dependency.intros)
qed

section \<open>Properties of the scheduler\<close>

subsection \<open>Runs and the shared state\<close>

lemma some_the: "x \<noteq> None \<Longrightarrow> x = Some (the x)"
  by simp

lemmas update_defs = set_pc_def log_def set_monitor_def set_error_def add_done_def
  set_main_def register_def the_error_def

lemma exec_invariant:
  assumes "exec s as = Some s'" and "P s"
    and "\<And>s a s'. P s \<Longrightarrow> step s a = Some s' \<Longrightarrow> P s'"
  shows "P s'"
  using assms(1,2)
proof (induction as arbitrary: s)
  case Nil
  then show ?case by simp
next
  case (Cons a as)
  then obtain s1 where s1: "step s a = Some s1" and rest: "exec s1 as = Some s'"
    by (auto split: option.splits)
  from Cons.prems(2) s1 have "P s1" by (rule assms(3))
  with rest show ?case by (rule Cons.IH)
qed

lemma exec_append:
  "exec s (as @ bs) = (case exec s as of None \<Rightarrow> None | Some s' \<Rightarrow> exec s' bs)"
  by (induction as arbitrary: s) (auto split: option.splits)

lemma play_grows_refl: "play_grows p p"
  by (simp add: play_grows_def)

lemma play_grows_trans: "play_grows p q \<Longrightarrow> play_grows q r \<Longrightarrow> play_grows p r"
  by (auto simp: play_grows_def)

lemma worker_next_play:
  "worker_next i q s = Some s' \<Longrightarrow> play_grows (the_play s) (the_play s')"
  by (cases q) (auto simp: update_defs play_grows_def split: if_splits sum.splits py_error.splits)

lemma main_next_play:
  "main_next q s = Some s' \<Longrightarrow> play_grows (the_play s) (the_play s')"
  by (cases "(q, s)" rule: main_next.cases)
     (auto simp: update_defs play_grows_def split: if_splits option.splits)

lemma main_raise_play:
  "main_raise e q s = Some s' \<Longrightarrow> the_play s' = the_play s"
  by (cases "(e, q, s)" rule: main_raise.cases) (auto simp: update_defs)

lemma step_play:
  "step s a = Some s' \<Longrightarrow> play_grows (the_play s) (the_play s')"
  by (cases a)
     (auto simp: task_ends_def update_defs play_grows_refl
           dest: worker_next_play main_next_play main_raise_play split: if_splits,
      auto simp: play_grows_def)

lemma exec_play:
  "exec s as = Some s' \<Longrightarrow> play_grows (the_play s) (the_play s')"
proof (induction as arbitrary: s)
  case Nil
  then show ?case by (simp add: play_grows_refl)
next
  case (Cons a as)
  then show ?case
    by (auto split: option.splits dest!: step_play intro: play_grows_trans)
qed

text \<open>
  Claim C7. Along every run of the scheduler, from any state, \<^verbatim>\<open>_done\<close> only grows and
  an error slot that holds a value still holds one afterwards. The steps are those of the
  workers and of \<^verbatim>\<open>start\<close>, \<^verbatim>\<open>register\<close> and \<^verbatim>\<open>end\<close> in the main thread.
\<close>

theorem shared_state_monotone:
  assumes "exec s as = Some s'"
  shows "play_done (the_play s) \<subseteq> play_done (the_play s') \<and>
         (the_error s \<noteq> None \<longrightarrow> the_error s' \<noteq> None)"
  using exec_play [OF assms] by (simp add: play_grows_def the_error_def)

theorem shared_state_monotone_witness:
  "exec (the (exec (boot play_AD) one_failure)) [Task_returns 1, Worker_step 1] \<noteq> None \<and>
   the_error (the (exec (boot play_AD) one_failure)) \<noteq> None \<and>
   play_done (the_play (the (exec (boot play_AD) one_failure)))
     \<subseteq> play_done (the_play (the (exec (the (exec (boot play_AD) one_failure)) [Task_returns 1, Worker_step 1]))) \<and>
   the_error (the (exec (the (exec (boot play_AD) one_failure)) [Task_returns 1, Worker_step 1])) \<noteq> None"
proof -
  have ne: "exec (the (exec (boot play_AD) one_failure)) [Task_returns 1, Worker_step 1] \<noteq> None"
    and e: "the_error (the (exec (boot play_AD) one_failure)) \<noteq> None"
    by code_simp+
  from shared_state_monotone [OF some_the [OF ne]] ne e show ?thesis by blast
qed

text \<open>
  Claim C3, as the code has it. When the task of a worker fails, the worker stores the
  failure in the error slot whatever the slot holds at that moment: there is no test of
  the slot in the handler, so of several failures the one stored last stays.
\<close>

theorem failure_overwrites_error:
  assumes "i < length (workers s)" and "pc (workers s ! i) = W_Running"
  shows "\<exists>s'. exec s [Task_raises i e, Worker_step i] = Some s' \<and>
           the_error s' = Some (Exception e) \<and> pc (workers s' ! i) = W_FinAcquire None"
  using assms by (simp add: task_ends_def update_defs)

theorem failure_overwrites_error_witness:
  "1 < length (workers (the (exec (boot play_AD) one_failure))) \<and>
   pc (workers (the (exec (boot play_AD) one_failure)) ! 1) = W_Running \<and>
   the_error (the (exec (boot play_AD) one_failure)) = Some (Exception ''first'') \<and>
   (\<exists>s'. exec (the (exec (boot play_AD) one_failure)) [Task_raises 1 ''second'', Worker_step 1] = Some s' \<and>
      the_error s' = Some (Exception ''second''))"
proof -
  have h: "1 < length (workers (the (exec (boot play_AD) one_failure)))"
    "pc (workers (the (exec (boot play_AD) one_failure)) ! 1) = W_Running"
    "the_error (the (exec (boot play_AD) one_failure)) = Some (Exception ''first'')"
    by code_simp+
  from failure_overwrites_error [OF h(1,2), of "''second''"] h show ?thesis by blast
qed

text \<open>
  Claim C3 as stated fails: \<open>A\<close> and \<open>D\<close> run together, the failure of \<open>A\<close> is stored
  first, and the worker of \<open>D\<close> then replaces it by its own.
\<close>

theorem first_failure_overwritten:
  "exec (boot play_AD) one_failure \<noteq> None \<and>
   the_error (the (exec (boot play_AD) one_failure)) = Some (Exception ''first'') \<and>
   two_failures = one_failure @ [Task_raises 1 ''second'', Worker_step 1] \<and>
   exec (boot play_AD) two_failures \<noteq> None \<and>
   the_error (the (exec (boot play_AD) two_failures)) = Some (Exception ''second'')"
  by code_simp

subsection \<open>No task starts before its dependencies are done\<close>

lemma satisfied_grows:
  "play_grows p p' \<Longrightarrow> satisfied p c = Inr True \<Longrightarrow> satisfied p' c = Inr True"
  by (auto simp: play_grows_def satisfied_def Let_def split: option.splits)

lemma worker_ok_grows:
  "play_grows p p' \<Longrightarrow> worker_ok p w \<Longrightarrow> worker_ok p' w"
  by (auto simp: worker_ok_def dest: satisfied_grows) (auto simp: play_grows_def)

lemma worker_next_workers:
  "worker_next i q s = Some s' \<Longrightarrow>
     \<exists>q'. workers s' = (workers s)[i := (workers s ! i)\<lparr> pc := q' \<rparr>]"
  by (cases q) (auto simp: update_defs split: if_splits sum.splits py_error.splits)

lemma main_next_workers: "main_next q s = Some s' \<Longrightarrow> workers s' = workers s"
  by (cases "(q, s)" rule: main_next.cases) (auto simp: update_defs split: if_splits option.splits)

lemma main_raise_workers: "main_raise e q s = Some s' \<Longrightarrow> workers s' = workers s"
  by (cases "(e, q, s)" rule: main_raise.cases) (auto simp: update_defs)

lemma worker_next_ok:
  assumes "worker_next i q s = Some s'" and "i < length (workers s)" and "pc (workers s ! i) = q"
    and "worker_ok (the_play s) (workers s ! i)"
  shows "worker_ok (the_play s') (workers s' ! i)"
  using assms
  by (cases q)
     (auto simp: update_defs worker_ok_def satisfied_def Let_def
           split: if_splits sum.splits py_error.splits option.splits)

lemma task_ends_no_premature:
  "no_premature s \<Longrightarrow> task_ends i q s = Some s' \<Longrightarrow>
     q \<notin> {W_Release, W_CheckAbort, W_Run, W_Running} \<Longrightarrow> no_premature s'"
  by (auto simp: task_ends_def set_pc_def no_premature_def nth_list_update worker_ok_def
           split: if_splits)

lemma step_no_premature:
  assumes "no_premature s" and "step s a = Some s'"
  shows "no_premature s'"
proof -
  have grows: "play_grows (the_play s) (the_play s')"
    using assms(2) by (rule step_play)
  have old: "worker_ok (the_play s') (workers s ! j)" if "j < length (workers s)" for j
    using assms(1) that grows by (auto simp: no_premature_def intro: worker_ok_grows)
  have same: "no_premature s'" if "workers s' = workers s"
    using that old by (simp add: no_premature_def)
  have upd: "no_premature s'"
    if "i < length (workers s)" and "workers s' = (workers s)[i := w]"
      and "worker_ok (the_play s') w" for i w
    using that old by (auto simp: no_premature_def nth_list_update)
  show ?thesis
  proof (cases a)
    case Main_step
    with assms(2) show ?thesis by (auto intro: same dest: main_next_workers)
  next
    case (Main_register c)
    with assms(2) have w: "workers s' = workers s @ [\<lparr> task_container = c, pc = W_Pending \<rparr>]"
      by (auto simp: update_defs split: if_splits)
    show ?thesis
      unfolding no_premature_def w using old
      by (auto simp: nth_append worker_ok_def)
  next
    case (Main_end ts)
    with assms(2) have "workers s' = workers s"
      by (auto simp: update_defs split: if_splits)
    then show ?thesis by (rule same)
  next
    case Main_interrupt
    with assms(2) show ?thesis by (auto intro: same dest: main_raise_workers)
  next
    case (Main_raises e)
    with assms(2) show ?thesis by (auto intro: same dest: main_raise_workers)
  next
    case (Worker_step i)
    with assms(2) have i: "i < length (workers s)"
      and n: "worker_next i (pc (workers s ! i)) s = Some s'"
      by (auto split: if_splits)
    from worker_next_workers [OF n] obtain q'
      where w: "workers s' = (workers s)[i := (workers s ! i)\<lparr> pc := q' \<rparr>]" ..
    from assms(1) i have "worker_ok (the_play s) (workers s ! i)"
      by (simp add: no_premature_def)
    with n i have "worker_ok (the_play s') (workers s' ! i)"
      by (intro worker_next_ok [OF n]) simp_all
    with w i have "worker_ok (the_play s') ((workers s ! i)\<lparr> pc := q' \<rparr>)" by simp
    with i w show ?thesis by (rule upd)
  next
    case (Task_returns i)
    with assms show ?thesis by (auto elim: task_ends_no_premature)
  next
    case (Task_raises i e)
    with assms show ?thesis by (auto elim: task_ends_no_premature)
  next
    case (Task_raises_base i b)
    with assms show ?thesis by (auto elim: task_ends_no_premature)
  qed
qed

lemma exec_no_premature:
  assumes "exec (boot p) as = Some s"
  shows "no_premature s"
proof (rule exec_invariant [OF assms])
  show "no_premature (boot p)" by (simp add: no_premature_def boot_def)
qed (rule step_no_premature)

text \<open>
  Claim C2. In every state that the scheduler reaches from the start of a play, a worker
  that is about to call its task or is inside it has all the dependencies of its
  container in \<^verbatim>\<open>_done\<close>; and a worker that has left the waiting loop, up to the test of
  line 71, has its dependencies satisfied or sees the error slot set, in which case it
  takes the abort branch.
\<close>

theorem no_premature_start:
  assumes "exec (boot p) as = Some s" and "i < length (workers s)"
  shows "(pc (workers s ! i) = W_Run \<or> pc (workers s ! i) = W_Running \<longrightarrow>
            (\<exists>deps. play_dependencies p (name (task_container (workers s ! i))) = Some deps \<and>
                    deps \<subseteq> play_done (the_play s))) \<and>
         (pc (workers s ! i) = W_Release \<or> pc (workers s ! i) = W_CheckAbort \<longrightarrow>
            satisfied (the_play s) (task_container (workers s ! i)) = Inr True \<or> the_error s \<noteq> None)"
proof -
  from assms have ok: "worker_ok (the_play s) (workers s ! i)"
    by (auto dest: exec_no_premature simp: no_premature_def)
  from exec_play [OF assms(1)]
  have deps: "play_dependencies (the_play s) = play_dependencies p"
    by (simp add: play_grows_def boot_def)
  from ok deps show ?thesis
    by (auto simp: worker_ok_def satisfied_def the_error_def Let_def split: option.splits)
qed

theorem no_premature_start_witness:
  "exec (boot play_AB) A_then_B \<noteq> None \<and>
   1 < length (workers (the (exec (boot play_AB) A_then_B))) \<and>
   pc (workers (the (exec (boot play_AB) A_then_B)) ! 1) = W_Running \<and>
   task_container (workers (the (exec (boot play_AB) A_then_B)) ! 1) = cB \<and>
   play_dependencies play_AB (name cB) = Some {cA} \<and>
   {cA} \<subseteq> play_done (the_play (the (exec (boot play_AB) A_then_B))) \<and>
   exec (boot play_AB) A_checks \<noteq> None \<and>
   0 < length (workers (the (exec (boot play_AB) A_checks))) \<and>
   pc (workers (the (exec (boot play_AB) A_checks)) ! 0) = W_CheckAbort \<and>
   (satisfied (the_play (the (exec (boot play_AB) A_checks)))
      (task_container (workers (the (exec (boot play_AB) A_checks)) ! 0)) = Inr True \<or>
    the_error (the (exec (boot play_AB) A_checks)) \<noteq> None)"
proof -
  have ne: "exec (boot play_AB) A_then_B \<noteq> None"
    and i: "1 < length (workers (the (exec (boot play_AB) A_then_B)))"
    and r: "pc (workers (the (exec (boot play_AB) A_then_B)) ! 1) = W_Running"
    and c: "task_container (workers (the (exec (boot play_AB) A_then_B)) ! 1) = cB"
    by code_simp+
  have d: "play_dependencies play_AB (name cB) = Some {cA}"
    by (simp add: play_AB_def cB_def)
  have ne': "exec (boot play_AB) A_checks \<noteq> None"
    and i': "0 < length (workers (the (exec (boot play_AB) A_checks)))"
    and r': "pc (workers (the (exec (boot play_AB) A_checks)) ! 0) = W_CheckAbort"
    by code_simp+
  from no_premature_start [OF some_the [OF ne] i] r c d
  have "{cA} \<subseteq> play_done (the_play (the (exec (boot play_AB) A_then_B)))" by auto
  moreover from no_premature_start [OF some_the [OF ne'] i'] r'
  have "satisfied (the_play (the (exec (boot play_AB) A_checks)))
      (task_container (workers (the (exec (boot play_AB) A_checks)) ! 0)) = Inr True \<or>
    the_error (the (exec (boot play_AB) A_checks)) \<noteq> None" by blast
  ultimately show ?thesis using ne i r c d ne' i' r' by blast
qed

subsection \<open>What a worker does before it ends\<close>

lemma thread_trace_log:
  "thread_trace (log t e s) t' = (if t = t' then thread_trace s t' @ [e] else thread_trace s t')"
  by (simp add: thread_trace_def log_def)

lemma thread_trace_other [simp]:
  "thread_trace (set_pc i q s) t = thread_trace s t"
  "thread_trace (set_monitor m s) t = thread_trace s t"
  "thread_trace (set_error e s) t = thread_trace s t"
  "thread_trace (add_done c s) t = thread_trace s t"
  "thread_trace (set_main mq s) t = thread_trace s t"
  "thread_trace (register c s) t = thread_trace s t"
  by (simp_all add: thread_trace_def update_defs)

lemma worker_next_trace_other:
  "worker_next i q s = Some s' \<Longrightarrow> t \<noteq> WorkerThread i \<Longrightarrow> thread_trace s' t = thread_trace s t"
  by (cases q) (auto simp: thread_trace_log split: if_splits sum.splits py_error.splits)

lemma main_next_trace_other:
  "main_next q s = Some s' \<Longrightarrow> t \<noteq> MainThread \<Longrightarrow> thread_trace s' t = thread_trace s t"
  by (cases "(q, s)" rule: main_next.cases)
     (auto simp: thread_trace_log split: if_splits option.splits)

lemma main_raise_trace: "main_raise e q s = Some s' \<Longrightarrow> thread_trace s' t = thread_trace s t"
  by (cases "(e, q, s)" rule: main_raise.cases) auto

lemma pc_set_pc [simp]:
  "i < length (workers s) \<Longrightarrow> pc (workers (set_pc i q s) ! i) = q"
  by (simp add: set_pc_def)

lemma workers_other [simp]:
  "workers (log t e s) = workers s"
  "workers (set_monitor m s) = workers s"
  "workers (set_error f s) = workers s"
  "workers (add_done c s) = workers s"
  "workers (set_main mq s) = workers s"
  by (simp_all add: update_defs)

lemma worker_next_trace_ok:
  assumes "worker_next i q s = Some s'" and "i < length (workers s)"
    and "trace_ok i q (thread_trace s (WorkerThread i))"
  shows "trace_ok i (pc (workers s' ! i)) (thread_trace s' (WorkerThread i))"
  using assms
  by (cases q)
     (auto simp: thread_trace_log suffix_def split: if_splits sum.splits py_error.splits option.splits)

lemma workers_set_pc:
  "workers (set_pc i q s) = (workers s)[i := (workers s ! i)\<lparr> pc := q \<rparr>]"
  by (simp add: set_pc_def)

lemma task_ends_traces_ok:
  assumes "traces_ok s" and "task_ends i q s = Some s'"
    and "\<And>tt. Task_run \<in> set tt \<Longrightarrow> trace_ok i q tt"
  shows "traces_ok s'"
proof -
  from assms(2) have i: "i < length (workers s)" and r: "pc (workers s ! i) = W_Running"
    and s': "s' = set_pc i q s"
    by (auto simp: task_ends_def split: if_splits)
  from assms(1) i r have "Task_run \<in> set (thread_trace s (WorkerThread i))"
    unfolding traces_ok_def by (auto split: if_splits dest!: spec [of _ i])
  then have "trace_ok i q (thread_trace s (WorkerThread i))" by (rule assms(3))
  with assms(1) i show ?thesis
    unfolding traces_ok_def s' by (auto simp: workers_set_pc nth_list_update)
qed

lemma step_traces_ok:
  assumes "traces_ok s" and "step s a = Some s'"
  shows "traces_ok s'"
proof -
  have inv: "trace_ok j (pc (workers s ! j)) (thread_trace s (WorkerThread j))"
    if "j < length (workers s)" for j
    using assms(1) that unfolding traces_ok_def by (auto split: if_splits)
  have empty: "thread_trace s (WorkerThread j) = []" if "\<not> j < length (workers s)" for j
    using assms(1) that unfolding traces_ok_def by (auto split: if_splits)
  have same: "traces_ok s'"
    if "workers s' = workers s" and "\<And>j. thread_trace s' (WorkerThread j) = thread_trace s (WorkerThread j)"
    using that assms(1) by (simp add: traces_ok_def)
  show ?thesis
  proof (cases a)
    case Main_step
    with assms(2) have n: "main_next (main_pc s) s = Some s'" by simp
    show ?thesis
      using main_next_workers [OF n] main_next_trace_other [OF n] by (intro same) simp_all
  next
    case (Main_register c)
    with assms(2) have s': "s' = register c s" by (auto split: if_splits)
    have w: "workers (register c s) = workers s @ [\<lparr> task_container = c, pc = W_Pending \<rparr>]"
      by (simp add: register_def)
    show ?thesis
      unfolding traces_ok_def
    proof (intro allI)
      fix j
      consider "j < length (workers s)" | "j = length (workers s)" | "j > length (workers s)"
        by linarith
      then show "if j < length (workers s')
          then trace_ok j (pc (workers s' ! j)) (thread_trace s' (WorkerThread j))
          else thread_trace s' (WorkerThread j) = []"
      proof cases
        case 1
        with inv [OF 1] show ?thesis by (simp add: w s' nth_append)
      next
        case 2
        with empty [of j] show ?thesis by (simp add: w s' nth_append)
      next
        case 3
        with empty [of j] show ?thesis by (simp add: w s')
      qed
    qed
  next
    case (Main_end ts)
    with assms(2) have "s' = set_main (M_Next ts) s" by (auto split: if_splits)
    then show ?thesis by (intro same) simp_all
  next
    case Main_interrupt
    with assms(2) have n: "main_raise ManualAbort (main_pc s) s = Some s'" by simp
    show ?thesis
      using main_raise_workers [OF n] main_raise_trace [OF n] by (intro same) simp_all
  next
    case (Main_raises e)
    with assms(2) have n: "main_raise (Exception e) (main_pc s) s = Some s'" by simp
    show ?thesis
      using main_raise_workers [OF n] main_raise_trace [OF n] by (intro same) simp_all
  next
    case (Worker_step i)
    with assms(2) have i: "i < length (workers s)"
      and n: "worker_next i (pc (workers s ! i)) s = Some s'"
      by (auto split: if_splits)
    from worker_next_workers [OF n] obtain q'
      where w: "workers s' = (workers s)[i := (workers s ! i)\<lparr> pc := q' \<rparr>]" ..
    have mine: "trace_ok i (pc (workers s' ! i)) (thread_trace s' (WorkerThread i))"
      using n i inv [OF i] by (rule worker_next_trace_ok)
    have others: "thread_trace s' (WorkerThread j) = thread_trace s (WorkerThread j)" if "j \<noteq> i" for j
      using n that by (intro worker_next_trace_other) simp_all
    show ?thesis
      unfolding traces_ok_def
    proof (intro allI)
      fix j
      show "if j < length (workers s')
          then trace_ok j (pc (workers s' ! j)) (thread_trace s' (WorkerThread j))
          else thread_trace s' (WorkerThread j) = []"
      proof (cases "j = i")
        case True
        with mine i w show ?thesis by simp
      next
        case False
        with others [OF False] inv [of j] empty [of j] w show ?thesis by simp
      qed
    qed
  next
    case (Task_returns i)
    with assms show ?thesis by (auto elim: task_ends_traces_ok)
  next
    case (Task_raises i e)
    with assms show ?thesis by (auto elim: task_ends_traces_ok)
  next
    case (Task_raises_base i b)
    with assms show ?thesis by (auto elim: task_ends_traces_ok)
  qed
qed

lemma exec_traces_ok:
  assumes "exec (boot p) as = Some s"
  shows "traces_ok s"
proof (rule exec_invariant [OF assms])
  show "traces_ok (boot p)" by (simp add: traces_ok_def boot_def thread_trace_def)
qed (rule step_traces_ok)

text \<open>
  Claim C4, as the code has it. A worker that has ended after calling its task, whether
  the task returned or raised, has taken the monitor, called \<^verbatim>\<open>notifyAll\<close> and
  released the monitor as its last three operations. A worker that has ended without
  calling its task never called \<^verbatim>\<open>notifyAll\<close>; if it returned, its last operation is
  the report \<^verbatim>\<open>aborted!\<close>. The \<^verbatim>\<open>return\<close> of the abort branch is before the \<^verbatim>\<open>try\<close>.
\<close>

theorem worker_exit_notifies:
  assumes "exec (boot p) as = Some s" and "i < length (workers s)"
    and "\<not> running_pc (pc (workers s ! i))"
  shows "(Task_run \<in> set (thread_trace s (WorkerThread i)) \<longrightarrow>
            suffix [Acquire, NotifyAll, Release] (thread_trace s (WorkerThread i))) \<and>
         (Task_run \<notin> set (thread_trace s (WorkerThread i)) \<longrightarrow>
            NotifyAll \<notin> set (thread_trace s (WorkerThread i)) \<and>
            (pc (workers s ! i) = W_Returned \<longrightarrow>
               suffix [Commit (Task_output i) Aborted] (thread_trace s (WorkerThread i))))"
proof -
  from exec_traces_ok [OF assms(1)] assms(2)
  have "trace_ok i (pc (workers s ! i)) (thread_trace s (WorkerThread i))"
    unfolding traces_ok_def by (auto split: if_splits)
  with assms(3) show ?thesis
  proof (cases "pc (workers s ! i)")
    case (W_Crashed cr)
    assume "trace_ok i (pc (workers s ! i)) (thread_trace s (WorkerThread i))"
    with W_Crashed show ?thesis by (cases cr) auto
  qed (auto split: if_splits)
qed

theorem worker_exit_notifies_witness:
  "exec (boot play_AB) abort_after_failure \<noteq> None \<and>
   0 < length (workers (the (exec (boot play_AB) abort_after_failure))) \<and>
   1 < length (workers (the (exec (boot play_AB) abort_after_failure))) \<and>
   \<not> running_pc (pc (workers (the (exec (boot play_AB) abort_after_failure)) ! 0)) \<and>
   pc (workers (the (exec (boot play_AB) abort_after_failure)) ! 1) = W_Returned \<and>
   Task_run \<in> set (thread_trace (the (exec (boot play_AB) abort_after_failure)) (WorkerThread 0)) \<and>
   Task_run \<notin> set (thread_trace (the (exec (boot play_AB) abort_after_failure)) (WorkerThread 1)) \<and>
   suffix [Acquire, NotifyAll, Release]
     (thread_trace (the (exec (boot play_AB) abort_after_failure)) (WorkerThread 0)) \<and>
   NotifyAll \<notin> set (thread_trace (the (exec (boot play_AB) abort_after_failure)) (WorkerThread 1)) \<and>
   suffix [Commit (Task_output 1) Aborted]
     (thread_trace (the (exec (boot play_AB) abort_after_failure)) (WorkerThread 1))"
proof -
  have ne: "exec (boot play_AB) abort_after_failure \<noteq> None"
    and i0: "0 < length (workers (the (exec (boot play_AB) abort_after_failure)))"
    and i1: "1 < length (workers (the (exec (boot play_AB) abort_after_failure)))"
    and e0: "\<not> running_pc (pc (workers (the (exec (boot play_AB) abort_after_failure)) ! 0))"
    and e1: "pc (workers (the (exec (boot play_AB) abort_after_failure)) ! 1) = W_Returned"
    and t0: "Task_run \<in> set (thread_trace (the (exec (boot play_AB) abort_after_failure)) (WorkerThread 0))"
    and t1: "Task_run \<notin> set (thread_trace (the (exec (boot play_AB) abort_after_failure)) (WorkerThread 1))"
    by code_simp+
  from e1 have e1': "\<not> running_pc (pc (workers (the (exec (boot play_AB) abort_after_failure)) ! 1))"
    by simp
  from worker_exit_notifies [OF some_the [OF ne] i0 e0] worker_exit_notifies [OF some_the [OF ne] i1 e1']
    ne i0 i1 e0 e1 t0 t1
  show ?thesis by blast
qed

text \<open>
  Claim C4 as stated fails on the abort path: \<open>B\<close> waits for \<open>A\<close>, the task of \<open>A\<close>
  fails, and the worker of \<open>B\<close> returns without \<^verbatim>\<open>notifyAll\<close>.
\<close>

theorem abort_path_skips_notify:
  "exec (boot play_AB) abort_after_failure \<noteq> None \<and>
   pc (workers (the (exec (boot play_AB) abort_after_failure)) ! 1) = W_Returned \<and>
   thread_trace (the (exec (boot play_AB) abort_after_failure)) (WorkerThread 1) =
     [Pending (Task_output 1) Waiting, Acquire, Wait, Release, Commit (Task_output 1) Aborted] \<and>
   NotifyAll \<notin> set (thread_trace (the (exec (boot play_AB) abort_after_failure)) (WorkerThread 1))"
  by code_simp

subsection \<open>What the main thread waits for\<close>

lemma worker_next_frame:
  "worker_next i q s = Some s' \<Longrightarrow>
     main_pc s' = main_pc s \<and> play_threads (the_play s') = play_threads (the_play s) \<and>
     running_pc q"
  by (cases q) (auto simp: update_defs split: if_splits sum.splits py_error.splits)

lemma main_next_threads:
  "main_next q s = Some s' \<Longrightarrow> play_threads (the_play s') = play_threads (the_play s)"
  by (cases "(q, s)" rule: main_next.cases) (auto simp: update_defs split: if_splits option.splits)

lemma isAlive_cong:
  "workers s' = workers s \<Longrightarrow> isAlive s' t = isAlive s t"
  by (simp add: isAlive_def)

lemma main_next_joined:
  assumes "main_next q s = Some s'" and "main_pc s = q" and "the_error s' = None"
    and "t \<in> joined (main_pc s') T"
  shows "the_error s = None \<and> t \<in> joined q T \<or> \<not> isAlive s t"
  using assms
  by (cases "(q, s)" rule: main_next.cases)
     (auto simp: update_defs split: if_splits option.splits)

lemma task_ends_join_ok:
  assumes "join_ok s" and "task_ends i q s = Some s'"
  shows "join_ok s'"
proof -
  from assms(2) have i: "i < length (workers s)" and r: "pc (workers s ! i) = W_Running"
    and s': "s' = set_pc i q s"
    by (auto simp: task_ends_def split: if_splits)
  from i r have alive: "isAlive s i" by (simp add: isAlive_def)
  have other: "isAlive (set_pc i q s) t = isAlive s t" if "t \<noteq> i" for t
    using that by (simp add: isAlive_def workers_set_pc)
  have frame: "the_error (set_pc i q s) = the_error s" "main_pc (set_pc i q s) = main_pc s"
    "play_threads (the_play (set_pc i q s)) = play_threads (the_play s)"
    "length (workers (set_pc i q s)) = length (workers s)"
    by (simp_all add: set_pc_def the_error_def)
  from assms(1) alive show ?thesis
    unfolding join_ok_def s' frame using other by metis
qed

lemma step_join_ok:
  assumes "join_ok s" and "step s a = Some s'"
  shows "join_ok s'"
proof -
  from assms(1) have reg: "\<And>i. i < length (workers s) \<Longrightarrow> i \<in> play_threads (the_play s)"
    and dead: "\<And>t. the_error s = None \<Longrightarrow> t \<in> joined (main_pc s) (play_threads (the_play s))
                 \<Longrightarrow> \<not> isAlive s t"
    by (auto simp: join_ok_def)
  have err: "the_error s = None" if "the_error s' = None"
    using step_play [OF assms(2)] that by (auto simp: play_grows_def the_error_def)
  show ?thesis
  proof (cases a)
    case Main_step
    with assms(2) have n: "main_next (main_pc s) s = Some s'" by simp
    note w = main_next_workers [OF n] and th = main_next_threads [OF n]
    show ?thesis
      unfolding join_ok_def
    proof (intro conjI allI impI ballI)
      fix i assume "i < length (workers s')"
      with w th reg show "i \<in> play_threads (the_play s')" by simp
    next
      fix t assume e: "the_error s' = None"
        and t: "t \<in> joined (main_pc s') (play_threads (the_play s'))"
      from main_next_joined [OF n refl e t] dead th
      have "\<not> isAlive s t" by auto
      with w show "\<not> isAlive s' t" by (simp add: isAlive_def)
    qed
  next
    case (Main_register c)
    with assms(2) have "main_pc s = M_Registering" and "s' = register c s"
      by (auto split: if_splits)
    with reg show ?thesis
      by (auto simp: join_ok_def register_def less_Suc_eq)
  next
    case (Main_end ts)
    with assms(2) have "set ts = play_threads (the_play s)" and "s' = set_main (M_Next ts) s"
      by (auto split: if_splits)
    with reg show ?thesis
      by (auto simp: join_ok_def set_main_def)
  next
    case Main_interrupt
    with assms(2) reg show ?thesis
      by (cases "(ManualAbort, main_pc s, s)" rule: main_raise.cases)
         (auto simp: join_ok_def set_main_def)
  next
    case (Main_raises e)
    with assms(2) reg show ?thesis
      by (cases "(Exception e, main_pc s, s)" rule: main_raise.cases)
         (auto simp: join_ok_def set_main_def)
  next
    case (Worker_step i)
    with assms(2) have i: "i < length (workers s)"
      and n: "worker_next i (pc (workers s ! i)) s = Some s'"
      by (auto split: if_splits)
    from worker_next_workers [OF n] obtain q'
      where w: "workers s' = (workers s)[i := (workers s ! i)\<lparr> pc := q' \<rparr>]" ..
    from worker_next_frame [OF n]
    have m: "main_pc s' = main_pc s" and th: "play_threads (the_play s') = play_threads (the_play s)"
      and alive: "isAlive s i"
      using i by (simp_all add: isAlive_def)
    show ?thesis
      unfolding join_ok_def
    proof (intro conjI allI impI ballI)
      fix j assume "j < length (workers s')"
      with w th reg show "j \<in> play_threads (the_play s')" by simp
    next
      fix t assume e: "the_error s' = None"
        and t: "t \<in> joined (main_pc s') (play_threads (the_play s'))"
      with m th dead err have d: "\<not> isAlive s t" by simp
      with alive have "t \<noteq> i" by auto
      with d w show "\<not> isAlive s' t" by (simp add: isAlive_def)
    qed
  next
    case (Task_returns i)
    with assms show ?thesis by (auto elim: task_ends_join_ok)
  next
    case (Task_raises i e)
    with assms show ?thesis by (auto elim: task_ends_join_ok)
  next
    case (Task_raises_base i b)
    with assms show ?thesis by (auto elim: task_ends_join_ok)
  qed
qed

lemma exec_join_ok:
  assumes "exec (boot p) as = Some s"
  shows "join_ok s"
proof (rule exec_invariant [OF assms])
  show "join_ok (boot p)" by (simp add: join_ok_def boot_def)
qed (rule step_join_ok)

lemma worker_next_main:
  "worker_next i q s = Some s' \<Longrightarrow>
     main_pc s' = main_pc s \<and> thread_trace s' MainThread = thread_trace s MainThread"
  using worker_next_frame [of i q s s'] worker_next_trace_other [of i q s s' MainThread]
  by simp

lemma main_pc_simps [simp]:
  "main_pc (set_main q s) = q"
  "main_pc (log t e s) = main_pc s"
  "main_pc (set_monitor m s) = main_pc s"
  "main_pc (set_error f s) = main_pc s"
  "main_pc (set_pc i wq s) = main_pc s"
  "main_pc (register c s) = main_pc s"
  by (simp_all add: update_defs)

lemma main_next_report_ok:
  "main_next q s = Some s' \<Longrightarrow> main_trace_ok q (thread_trace s MainThread) \<Longrightarrow>
     main_trace_ok (main_pc s') (thread_trace s' MainThread)"
  by (cases "(q, s)" rule: main_next.cases)
     (auto simp: thread_trace_log suffix_def split: if_splits option.splits)

lemma main_raise_report_ok:
  "main_raise e q s = Some s' \<Longrightarrow> main_trace_ok q (thread_trace s MainThread) \<Longrightarrow>
     main_trace_ok (main_pc s') (thread_trace s' MainThread)"
  by (cases "(e, q, s)" rule: main_raise.cases) auto

lemma step_report_ok:
  assumes "report_ok s" and "step s a = Some s'"
  shows "report_ok s'"
proof (cases a)
  case Main_step
  with assms show ?thesis by (auto simp: report_ok_def intro: main_next_report_ok)
next
  case (Main_register c)
  with assms show ?thesis
    by (auto simp: report_ok_def split: if_splits)
next
  case (Main_end ts)
  with assms show ?thesis
    by (auto simp: report_ok_def split: if_splits)
next
  case Main_interrupt
  with assms show ?thesis by (auto simp: report_ok_def intro: main_raise_report_ok)
next
  case (Main_raises e)
  with assms show ?thesis by (auto simp: report_ok_def intro: main_raise_report_ok)
next
  case (Worker_step i)
  with assms show ?thesis
    by (auto simp: report_ok_def split: if_splits dest!: worker_next_main)
next
  case (Task_returns i)
  with assms show ?thesis
    by (auto simp: report_ok_def task_ends_def split: if_splits)
next
  case (Task_raises i e)
  with assms show ?thesis
    by (auto simp: report_ok_def task_ends_def split: if_splits)
next
  case (Task_raises_base i b)
  with assms show ?thesis
    by (auto simp: report_ok_def task_ends_def split: if_splits)
qed

lemma exec_report_ok:
  assumes "exec (boot p) as = Some s"
  shows "report_ok s"
proof (rule exec_invariant [OF assms])
  show "report_ok (boot p)" by (simp add: report_ok_def boot_def thread_trace_def)
qed (rule step_report_ok)

text \<open>
  Claim C5, as the code has it. \<^verbatim>\<open>end\<close> waits for a thread only while the error slot
  is empty (\<^verbatim>\<open>while not self._error and t.isAlive()\<close>): when it has left its loop,
  the error slot is set or every registered worker has ended. The diagnostic is written
  last, after the output manager has been ended.
\<close>

theorem end_waits_unless_error:
  assumes "exec (boot p) as = Some s"
  shows "(main_pc s = M_OmEnd \<or> main_pc s = M_Report \<or> main_pc s = M_Done \<longrightarrow>
            the_error s \<noteq> None \<or> (\<forall>i < length (workers s). \<not> isAlive s i)) \<and>
         (\<forall>e. Stderr e \<in> set (thread_trace s MainThread) \<longrightarrow>
            main_pc s = M_Done \<and> suffix [Om_end, Stderr e] (thread_trace s MainThread))"
proof (intro conjI impI allI)
  assume "main_pc s = M_OmEnd \<or> main_pc s = M_Report \<or> main_pc s = M_Done"
  with exec_join_ok [OF assms]
  show "the_error s \<noteq> None \<or> (\<forall>i < length (workers s). \<not> isAlive s i)"
    by (auto simp: join_ok_def)
next
  fix e assume e: "Stderr e \<in> set (thread_trace s MainThread)"
  from exec_report_ok [OF assms]
  have ok: "main_trace_ok (main_pc s) (thread_trace s MainThread)"
    by (simp add: report_ok_def)
  with e show "main_pc s = M_Done"
    by (cases "main_pc s") auto
  with ok e show "suffix [Om_end, Stderr e] (thread_trace s MainThread)"
    by (auto simp: suffix_def)
qed

theorem end_waits_unless_error_witness:
  "exec (boot play_AB) clean_end \<noteq> None \<and>
   main_pc (the (exec (boot play_AB) clean_end)) = M_Done \<and>
   the_error (the (exec (boot play_AB) clean_end)) = None \<and>
   length (workers (the (exec (boot play_AB) clean_end))) = 2 \<and>
   \<not> isAlive (the (exec (boot play_AB) clean_end)) 0 \<and>
   \<not> isAlive (the (exec (boot play_AB) clean_end)) 1 \<and>
   exec (boot play_AD) early_end \<noteq> None \<and>
   Stderr (Exception ''boom'') \<in> set (thread_trace (the (exec (boot play_AD) early_end)) MainThread) \<and>
   main_pc (the (exec (boot play_AD) early_end)) = M_Done \<and>
   suffix [Om_end, Stderr (Exception ''boom'')]
     (thread_trace (the (exec (boot play_AD) early_end)) MainThread)"
proof -
  have ne: "exec (boot play_AB) clean_end \<noteq> None"
    and m: "main_pc (the (exec (boot play_AB) clean_end)) = M_Done"
    and e: "the_error (the (exec (boot play_AB) clean_end)) = None"
    and l: "length (workers (the (exec (boot play_AB) clean_end))) = 2"
    by code_simp+
  have ne': "exec (boot play_AD) early_end \<noteq> None"
    and st: "Stderr (Exception ''boom'') \<in> set (thread_trace (the (exec (boot play_AD) early_end)) MainThread)"
    by code_simp+
  from end_waits_unless_error [OF some_the [OF ne]] m e l
  have "\<forall>i < 2. \<not> isAlive (the (exec (boot play_AB) clean_end)) i" by auto
  then have dead: "\<not> isAlive (the (exec (boot play_AB) clean_end)) 0"
    "\<not> isAlive (the (exec (boot play_AB) clean_end)) 1"
    by simp_all
  from end_waits_unless_error [OF some_the [OF ne']] dead ne m e l ne' st
  show ?thesis by blast
qed

text \<open>
  Claim C5 as stated fails after a failure: \<^verbatim>\<open>end\<close> has written the diagnostic for
  the failure of \<open>A\<close> while the worker of \<open>A\<close> is before its \<^verbatim>\<open>finally\<close> block and
  the task of \<open>D\<close> is still running.
\<close>

theorem end_reports_while_running:
  "exec (boot play_AD) early_end \<noteq> None \<and>
   main_pc (the (exec (boot play_AD) early_end)) = M_Done \<and>
   thread_trace (the (exec (boot play_AD) early_end)) MainThread =
     [Print_header, Om_start, Acquire, NotifyAll, Release, Acquire, NotifyAll, Release,
      Om_end, Stderr (Exception ''boom'')] \<and>
   pc (workers (the (exec (boot play_AD) early_end)) ! 0) = W_FinAcquire None \<and>
   pc (workers (the (exec (boot play_AD) early_end)) ! 1) = W_Running \<and>
   isAlive (the (exec (boot play_AD) early_end)) 0 \<and>
   isAlive (the (exec (boot play_AD) early_end)) 1"
  by code_simp

subsection \<open>The sequential play\<close>

lemma returns_iff: "returns x \<longleftrightarrow> (\<exists>r. x = Returns r)"
  by (cases x) auto

lemma ports_loop_completed:
  "pings_return pr ps \<Longrightarrow>
     \<exists>fmt' outs. ports_loop pr fmt ps = (fmt', outs, Completed) \<and>
       (\<forall>f. Commit f Host_down \<notin> set outs) \<and>
       (\<forall>ev \<in> set outs. \<exists>f m. ev = Pending f m \<or> ev = Commit f m)"
proof (induction ps arbitrary: fmt)
  case Nil
  then show ?case by simp
next
  case (Cons port ps)
  obtain n ext where port: "port = (n, ext)" by (cases port)
  from Cons.prems port obtain ping where ping: "ping_result pr n = Returns ping"
    and rest: "pings_return pr ps"
    by (auto simp: pings_return_def returns_iff)
  from Cons.IH [OF rest, of Port_row] obtain fmt' outs
    where "ports_loop pr Port_row ps = (fmt', outs, Completed)"
      and "\<forall>f. Commit f Host_down \<notin> set outs"
      and "\<forall>ev \<in> set outs. \<exists>f m. ev = Pending f m \<or> ev = Commit f m"
    by blast
  with port ping show ?case by (auto simp: Let_def)
qed

lemma ports_loop_stopped:
  assumes "pings_return pr pre" and "\<not> returns (ping_result pr n)"
  shows "\<exists>outs. ports_loop pr fmt (pre @ (n, ext) # rest) =
           (Port_row, outs @ [Pending Port_row (Port_pending ext n)],
            case ping_result pr n of Raises e \<Rightarrow> Caught | Raises_base b \<Rightarrow> Escaped b
              | Returns r \<Rightarrow> Completed) \<and>
         (\<forall>f. Commit f Host_down \<notin> set outs) \<and>
         (\<forall>ev \<in> set outs. \<exists>f m. ev = Pending f m \<or> ev = Commit f m)"
  using assms(1)
proof (induction pre arbitrary: fmt)
  case Nil
  from assms(2) show ?case
    by (cases "ping_result pr n") (auto simp: Let_def intro!: exI [of _ "[Commit fmt Newline]"])
next
  case (Cons port pre)
  obtain m x where port: "port = (m, x)" by (cases port)
  from Cons.prems port obtain ping where ping: "ping_result pr m = Returns ping"
    and pre: "pings_return pr pre"
    by (auto simp: pings_return_def returns_iff)
  from Cons.IH [OF pre, of Port_row] obtain outs
    where l: "ports_loop pr Port_row (pre @ (n, ext) # rest) =
           (Port_row, outs @ [Pending Port_row (Port_pending ext n)],
            case ping_result pr n of Raises e \<Rightarrow> Caught | Raises_base b \<Rightarrow> Escaped b
              | Returns r \<Rightarrow> Completed)"
      and h: "\<forall>f. Commit f Host_down \<notin> set outs"
      and f: "\<forall>ev \<in> set outs. \<exists>f m. ev = Pending f m \<or> ev = Commit f m"
    by blast
  show ?case
    apply (rule exI [of _ "[Commit fmt Newline, Pending Port_row (Port_pending x m),
                            Commit Port_row (Port_cell ping x m)] @ outs"])
    using port ping l h f by (auto simp: Let_def)
qed

lemma inspect_status_caught:
  "status_result pr = Raises e \<Longrightarrow>
     inspect order c pr = ([Pending (Row order c) Checking_container,
                            Commit (Row order c) Host_down, Commit (Row order c) Newline], None)"
  by (simp add: inspect_def Let_def)

lemma inspect_status_escapes:
  "status_result pr = Raises_base b \<Longrightarrow>
     inspect order c pr = ([Pending (Row order c) Checking_container], Some b)"
  by (simp add: inspect_def Let_def)

lemma inspect_ping_caught:
  assumes "status_result pr = Returns status" and "ports pr = pre @ (n, ext) # rest"
    and "pings_return pr pre" and "ping_result pr n = Raises e"
  shows "\<exists>outs. inspect order c pr =
           (status_cells order c pr status @ outs @
              [Pending Port_row (Port_pending ext n), Commit Port_row Host_down,
               Commit Port_row Newline], None) \<and>
         (\<forall>f. Commit f Host_down \<notin> set outs)"
proof -
  from assms(4) have "\<not> returns (ping_result pr n)" by simp
  from ports_loop_stopped [OF assms(3) this, of "Row order c" ext rest] assms(4)
  obtain outs where "ports_loop pr (Row order c) (pre @ (n, ext) # rest) =
      (Port_row, outs @ [Pending Port_row (Port_pending ext n)], Caught)"
    and "\<forall>f. Commit f Host_down \<notin> set outs"
    by auto
  with assms(1,2) show ?thesis
    by (auto simp: inspect_def Let_def status_cells_def)
qed

lemma inspect_ping_escapes:
  assumes "status_result pr = Returns status" and "ports pr = pre @ (n, ext) # rest"
    and "pings_return pr pre" and "ping_result pr n = Raises_base b"
  shows "\<exists>outs. inspect order c pr =
           (status_cells order c pr status @ outs @ [Pending Port_row (Port_pending ext n)], Some b) \<and>
         (\<forall>f. Commit f Host_down \<notin> set outs)"
proof -
  from assms(4) have "\<not> returns (ping_result pr n)" by simp
  from ports_loop_stopped [OF assms(3) this, of "Row order c" ext rest] assms(4)
  obtain outs where "ports_loop pr (Row order c) (pre @ (n, ext) # rest) =
      (Port_row, outs @ [Pending Port_row (Port_pending ext n)], Escaped b)"
    and "\<forall>f. Commit f Host_down \<notin> set outs"
    by auto
  with assms(1,2) show ?thesis
    by (auto simp: inspect_def Let_def status_cells_def)
qed

lemma inspect_all_return:
  assumes "status_result pr = Returns status" and "pings_return pr (ports pr)"
  shows "\<exists>outs fmt. inspect order c pr =
           (status_cells order c pr status @ outs @ [Commit fmt Newline], None) \<and>
         (\<forall>f. Commit f Host_down \<notin> set outs)"
proof -
  from ports_loop_completed [OF assms(2), of "Row order c"]
  obtain fmt' outs where "ports_loop pr (Row order c) (ports pr) = (fmt', outs, Completed)"
    and "\<forall>f. Commit f Host_down \<notin> set outs"
    by blast
  with assms(1) show ?thesis
    by (auto simp: inspect_def Let_def status_cells_def)
qed

lemma rendered_Cons:
  "rendered insp ((order, c) # xs) = fst (inspect order c (insp c)) @ rendered insp xs"
  by (simp add: rendered_def)

lemma FullStatus_loop_eq:
  "FullStatus_loop insp xs s =
     (s\<lparr> trace := trace s @ map (Pair MainThread) (rendered insp (inspected insp xs)) \<rparr>,
      first_escape insp xs)"
proof (induction xs arbitrary: s)
  case Nil
  then show ?case by (simp add: rendered_def)
next
  case (Cons x xs)
  obtain order c where x: "x = (order, c)" by (cases x)
  obtain evs esc where i: "inspect order c (insp c) = (evs, esc)"
    by (cases "inspect order c (insp c)")
  show ?case
  proof (cases esc)
    case None
    with x i Cons.IH show ?thesis by (simp add: rendered_Cons)
  next
    case (Some b)
    with x i show ?thesis by (simp add: rendered_def)
  qed
qed

lemma unescaped_no_escape:
  "unescaped insp xs \<Longrightarrow> first_escape insp xs = None \<and> inspected insp xs = xs"
  by (induction xs) (auto simp: unescaped_def)

lemma first_escape_Some:
  "first_escape insp xs = Some b \<Longrightarrow>
     \<exists>seen order c rest. xs = seen @ (order, c) # rest \<and> unescaped insp seen \<and>
       snd (inspect order c (insp c)) = Some b \<and> inspected insp xs = seen @ [(order, c)]"
proof (induction xs)
  case Nil
  then show ?case by simp
next
  case (Cons x xs)
  obtain order c where x: "x = (order, c)" by (cases x)
  show ?case
  proof (cases "snd (inspect order c (insp c))")
    case None
    with Cons x obtain seen order' c' rest
      where "xs = seen @ (order', c') # rest" and "unescaped insp seen"
        and "snd (inspect order' c' (insp c')) = Some b"
        and "inspected insp xs = seen @ [(order', c')]"
      by auto
    with None x have "x # xs = ((order, c) # seen) @ (order', c') # rest \<and>
        unescaped insp ((order, c) # seen) \<and> snd (inspect order' c' (insp c')) = Some b \<and>
        inspected insp (x # xs) = ((order, c) # seen) @ [(order', c')]"
      by (simp add: unescaped_def)
    then show ?thesis by blast
  next
    case (Some b')
    with Cons.prems x have "x # xs = [] @ (order, c) # xs \<and> unescaped insp [] \<and>
        snd (inspect order c (insp c)) = Some b \<and> inspected insp (x # xs) = [] @ [(order, c)]"
      by (simp add: unescaped_def)
    then show ?thesis by blast
  qed
qed

lemma FullStatus_run_eq:
  assumes "play_containers p = cs" and "play_threads p = {}" and "play_error p = None"
  shows "\<exists>r. FullStatus_run insp (boot p) = Some r \<and>
           the_play (run_state r) = p \<and> the_error (run_state r) = None \<and>
           workers (run_state r) = [] \<and>
           run_escape r = first_escape insp (enumerate 1 cs) \<and>
           map snd (trace (run_state r)) = [Print_header, Om_start]
             @ rendered insp (inspected insp (enumerate 1 cs))
             @ (if run_escape r = None then [Om_end] else []) \<and>
           main_pc (run_state r) = (if run_escape r = None then M_Done else M_Registering)"
proof (cases "first_escape insp (enumerate 1 cs)")
  case None
  with assms show ?thesis
    by (simp add: FullStatus_run_def FullStatus_loop_eq boot_def update_defs comp_def)
next
  case (Some b)
  with assms show ?thesis
    by (simp add: FullStatus_run_def FullStatus_loop_eq boot_def update_defs comp_def)
qed

text \<open>
  Claim C9, as the code has it. \<^verbatim>\<open>FullStatus.run\<close> inspects the containers one after
  the other in list order and never changes the play object, so the error slot stays
  empty. An \<^verbatim>\<open>Exception\<close> raised by \<^verbatim>\<open>status()\<close> or by \<^verbatim>\<open>ping_port\<close> is caught
  and rendered for that container only: the \<^verbatim>\<open>host down\<close> commit on the row at hand,
  then the final commit, after which the next container is inspected; the pings that
  returned before are reported and the ports after the failing one are not pinged.
  When no inspection is left by an exception the run ends with \<^verbatim>\<open>end\<close> and every
  container has been inspected. An exception outside \<^verbatim>\<open>Exception\<close> is not caught:
  it ends the inspection at the call that raised it, without a \<^verbatim>\<open>host down\<close>
  commit, and \<^verbatim>\<open>run\<close> at that container, before \<^verbatim>\<open>end\<close>.
\<close>

theorem FullStatus_run_isolates:
  assumes "FullStatus_init sv cs = Inr p"
  shows "\<exists>r. FullStatus_run insp (boot p) = Some r \<and>
           the_play (run_state r) = p \<and> the_error (run_state r) = None \<and>
           workers (run_state r) = [] \<and>
           run_escape r = first_escape insp (enumerate 1 cs) \<and>
           map snd (trace (run_state r)) = [Print_header, Om_start]
             @ rendered insp (inspected insp (enumerate 1 cs))
             @ (if run_escape r = None then [Om_end] else []) \<and>
           main_pc (run_state r) = (if run_escape r = None then M_Done else M_Registering) \<and>
           (unescaped insp (enumerate 1 cs) \<longrightarrow>
              run_escape r = None \<and> inspected insp (enumerate 1 cs) = enumerate 1 cs) \<and>
           (\<forall>b. run_escape r = Some b \<longrightarrow>
              (\<exists>seen order c rest. enumerate 1 cs = seen @ (order, c) # rest \<and>
                 unescaped insp seen \<and> snd (inspect order c (insp c)) = Some b \<and>
                 inspected insp (enumerate 1 cs) = seen @ [(order, c)])) \<and>
           (\<forall>order c.
              (\<forall>e. status_result (insp c) = Raises e \<longrightarrow>
                 inspect order c (insp c) =
                   ([Pending (Row order c) Checking_container, Commit (Row order c) Host_down,
                     Commit (Row order c) Newline], None)) \<and>
              (\<forall>b. status_result (insp c) = Raises_base b \<longrightarrow>
                 inspect order c (insp c) = ([Pending (Row order c) Checking_container], Some b)) \<and>
              (\<forall>status pre n ext rest e.
                 status_result (insp c) = Returns status \<and> ports (insp c) = pre @ (n, ext) # rest \<and>
                 pings_return (insp c) pre \<and> ping_result (insp c) n = Raises e \<longrightarrow>
                 (\<exists>outs. inspect order c (insp c) =
                    (status_cells order c (insp c) status @ outs @
                       [Pending Port_row (Port_pending ext n), Commit Port_row Host_down,
                        Commit Port_row Newline], None) \<and>
                    (\<forall>f. Commit f Host_down \<notin> set outs))) \<and>
              (\<forall>status pre n ext rest b.
                 status_result (insp c) = Returns status \<and> ports (insp c) = pre @ (n, ext) # rest \<and>
                 pings_return (insp c) pre \<and> ping_result (insp c) n = Raises_base b \<longrightarrow>
                 (\<exists>outs. inspect order c (insp c) =
                    (status_cells order c (insp c) status @ outs @
                       [Pending Port_row (Port_pending ext n)], Some b) \<and>
                    (\<forall>f. Commit f Host_down \<notin> set outs))) \<and>
              (\<forall>status. status_result (insp c) = Returns status \<and>
                 pings_return (insp c) (ports (insp c)) \<longrightarrow>
                 (\<exists>outs fmt. inspect order c (insp c) =
                    (status_cells order c (insp c) status @ outs @ [Commit fmt Newline], None) \<and>
                    (\<forall>f. Commit f Host_down \<notin> set outs))))"
proof -
  from assms have p: "play_containers p = cs" "play_threads p = {}" "play_error p = None"
    by (auto simp: FullStatus_init_def init_eq)
  from FullStatus_run_eq [OF p, of insp] obtain r
    where r: "FullStatus_run insp (boot p) = Some r" "the_play (run_state r) = p"
      "the_error (run_state r) = None" "workers (run_state r) = []"
      "run_escape r = first_escape insp (enumerate 1 cs)"
      "map snd (trace (run_state r)) = [Print_header, Om_start]
         @ rendered insp (inspected insp (enumerate 1 cs))
         @ (if run_escape r = None then [Om_end] else [])"
      "main_pc (run_state r) = (if run_escape r = None then M_Done else M_Registering)"
    by blast
  have u: "unescaped insp (enumerate 1 cs) \<longrightarrow>
      run_escape r = None \<and> inspected insp (enumerate 1 cs) = enumerate 1 cs"
    using r(5) by (auto dest: unescaped_no_escape)
  have e: "\<forall>b. run_escape r = Some b \<longrightarrow>
      (\<exists>seen order c rest. enumerate 1 cs = seen @ (order, c) # rest \<and>
         unescaped insp seen \<and> snd (inspect order c (insp c)) = Some b \<and>
         inspected insp (enumerate 1 cs) = seen @ [(order, c)])"
    using r(5) by (auto dest: first_escape_Some)
  have A: "\<forall>e. status_result (insp c) = Raises e \<longrightarrow>
      inspect order c (insp c) =
        ([Pending (Row order c) Checking_container, Commit (Row order c) Host_down,
          Commit (Row order c) Newline], None)" for order c
    by (simp add: inspect_status_caught)
  have B: "\<forall>b. status_result (insp c) = Raises_base b \<longrightarrow>
      inspect order c (insp c) = ([Pending (Row order c) Checking_container], Some b)" for order c
    by (simp add: inspect_status_escapes)
  have C: "\<forall>status pre n ext rest e.
      status_result (insp c) = Returns status \<and> ports (insp c) = pre @ (n, ext) # rest \<and>
      pings_return (insp c) pre \<and> ping_result (insp c) n = Raises e \<longrightarrow>
      (\<exists>outs. inspect order c (insp c) =
         (status_cells order c (insp c) status @ outs @
            [Pending Port_row (Port_pending ext n), Commit Port_row Host_down,
             Commit Port_row Newline], None) \<and>
         (\<forall>f. Commit f Host_down \<notin> set outs))" for order c
    by (blast intro: inspect_ping_caught)
  have D: "\<forall>status pre n ext rest b.
      status_result (insp c) = Returns status \<and> ports (insp c) = pre @ (n, ext) # rest \<and>
      pings_return (insp c) pre \<and> ping_result (insp c) n = Raises_base b \<longrightarrow>
      (\<exists>outs. inspect order c (insp c) =
         (status_cells order c (insp c) status @ outs @
            [Pending Port_row (Port_pending ext n)], Some b) \<and>
         (\<forall>f. Commit f Host_down \<notin> set outs))" for order c
    by (blast intro: inspect_ping_escapes)
  have E: "\<forall>status. status_result (insp c) = Returns status \<and>
      pings_return (insp c) (ports (insp c)) \<longrightarrow>
      (\<exists>outs fmt. inspect order c (insp c) =
         (status_cells order c (insp c) status @ outs @ [Commit fmt Newline], None) \<and>
         (\<forall>f. Commit f Host_down \<notin> set outs))" for order c
    by (blast intro: inspect_all_return)
  show ?thesis
    apply (rule exI [of _ r])
    apply (rule conjI, rule r(1))
    apply (rule conjI, rule r(2))
    apply (rule conjI, rule r(3))
    apply (rule conjI, rule r(4))
    apply (rule conjI, rule r(5))
    apply (rule conjI, rule r(6))
    apply (rule conjI, rule r(7))
    apply (rule conjI, rule u)
    apply (rule conjI, rule e)
    apply (intro allI)
    apply (rule conjI, rule A)
    apply (rule conjI, rule B)
    apply (rule conjI, rule C)
    apply (rule conjI, rule D)
    apply (rule E)
    done
qed

lemma play_AB_FullStatus: "FullStatus_init chain [cA, cB] = Inr play_AB"
  using play_AB_init by (simp add: FullStatus_init_def Start_init_def)

theorem FullStatus_run_isolates_witness:
  "FullStatus_init chain [cA, cB] = Inr play_AB \<and>
   unescaped silent (enumerate 1 [cA, cB]) \<and>
   (\<exists>r. FullStatus_run silent (boot play_AB) = Some r \<and> run_escape r = None \<and>
      the_play (run_state r) = play_AB \<and> the_error (run_state r) = None \<and>
      main_pc (run_state r) = M_Done \<and>
      map snd (trace (run_state r)) =
        [Print_header, Om_start] @ rendered silent (enumerate 1 [cA, cB]) @ [Om_end]) \<and>
   status_result (silent cA) = Raises ''timeout'' \<and>
   inspect 1 cA (silent cA) =
     ([Pending (Row 1 cA) Checking_container, Commit (Row 1 cA) Host_down,
       Commit (Row 1 cA) Newline], None) \<and>
   status_result (silent cB) = Returns (Some True) \<and>
   ports (silent cB) = [(''http'', ''8080'')] @ (''admin'', ''8081'') # [] \<and>
   pings_return (silent cB) [(''http'', ''8080'')] \<and>
   ping_result (silent cB) ''admin'' = Raises ''refused'' \<and>
   (\<exists>outs. inspect 2 cB (silent cB) =
      (status_cells 2 cB (silent cB) (Some True) @ outs @
         [Pending Port_row (Port_pending ''8081'' ''admin''), Commit Port_row Host_down,
          Commit Port_row Newline], None)) \<and>
   (\<exists>r. FullStatus_run interrupted (boot play_AB) = Some r \<and>
      run_escape r = Some ''KeyboardInterrupt'' \<and> the_play (run_state r) = play_AB \<and>
      the_error (run_state r) = None \<and> main_pc (run_state r) = M_Registering) \<and>
   status_result (interrupted cA) = Raises_base ''KeyboardInterrupt'' \<and>
   inspect 1 cA (interrupted cA) =
     ([Pending (Row 1 cA) Checking_container], Some ''KeyboardInterrupt'') \<and>
   status_result (interrupted cB) = Returns (Some True) \<and>
   ports (interrupted cB) = [(''http'', ''8080'')] @ (''admin'', ''8081'') # [] \<and>
   pings_return (interrupted cB) [(''http'', ''8080'')] \<and>
   ping_result (interrupted cB) ''admin'' = Raises_base ''KeyboardInterrupt'' \<and>
   (\<exists>outs. inspect 2 cB (interrupted cB) =
      (status_cells 2 cB (interrupted cB) (Some True) @ outs @
         [Pending Port_row (Port_pending ''8081'' ''admin'')], Some ''KeyboardInterrupt'')) \<and>
   status_result (interrupted cC) = Returns (Some True) \<and>
   pings_return (interrupted cC) (ports (interrupted cC)) \<and>
   (\<exists>outs fmt. inspect 3 cC (interrupted cC) =
      (status_cells 3 cC (interrupted cC) (Some True) @ outs @ [Commit fmt Newline], None))"
proof -
  note init = play_AB_FullStatus
  have un: "unescaped silent (enumerate 1 [cA, cB])"
    and esc: "first_escape interrupted (enumerate 1 [cA, cB]) = Some ''KeyboardInterrupt''"
    by code_simp+
  have sA: "status_result (silent cA) = Raises ''timeout''"
    and sB: "status_result (silent cB) = Returns (Some True)"
    and pB: "ports (silent cB) = [(''http'', ''8080'')] @ (''admin'', ''8081'') # []"
    and rB: "pings_return (silent cB) [(''http'', ''8080'')]"
    and gB: "ping_result (silent cB) ''admin'' = Raises ''refused''"
    by (simp_all add: silent_def cA_def cB_def pings_return_def)
  have iA: "status_result (interrupted cA) = Raises_base ''KeyboardInterrupt''"
    and iB: "status_result (interrupted cB) = Returns (Some True)"
    and ipB: "ports (interrupted cB) = [(''http'', ''8080'')] @ (''admin'', ''8081'') # []"
    and irB: "pings_return (interrupted cB) [(''http'', ''8080'')]"
    and igB: "ping_result (interrupted cB) ''admin'' = Raises_base ''KeyboardInterrupt''"
    and iC: "status_result (interrupted cC) = Returns (Some True)"
    and irC: "pings_return (interrupted cC) (ports (interrupted cC))"
    by (simp_all add: interrupted_def cA_def cB_def cC_def pings_return_def)
  from FullStatus_run_isolates [OF init, of silent] obtain r
    where r: "FullStatus_run silent (boot play_AB) = Some r" "the_play (run_state r) = play_AB"
      "the_error (run_state r) = None" "workers (run_state r) = []"
      "run_escape r = first_escape silent (enumerate 1 [cA, cB])"
      "map snd (trace (run_state r)) = [Print_header, Om_start]
         @ rendered silent (inspected silent (enumerate 1 [cA, cB]))
         @ (if run_escape r = None then [Om_end] else [])"
      "main_pc (run_state r) = (if run_escape r = None then M_Done else M_Registering)"
      "unescaped silent (enumerate 1 [cA, cB]) \<longrightarrow>
         run_escape r = None \<and> inspected silent (enumerate 1 [cA, cB]) = enumerate 1 [cA, cB]"
      "\<forall>b. run_escape r = Some b \<longrightarrow>
         (\<exists>seen order c rest. enumerate 1 [cA, cB] = seen @ (order, c) # rest \<and>
            unescaped silent seen \<and> snd (inspect order c (silent c)) = Some b \<and>
            inspected silent (enumerate 1 [cA, cB]) = seen @ [(order, c)])"
    and ins: "\<forall>order c.
              (\<forall>e. status_result (silent c) = Raises e \<longrightarrow>
                 inspect order c (silent c) =
                   ([Pending (Row order c) Checking_container, Commit (Row order c) Host_down,
                     Commit (Row order c) Newline], None)) \<and>
              (\<forall>b. status_result (silent c) = Raises_base b \<longrightarrow>
                 inspect order c (silent c) = ([Pending (Row order c) Checking_container], Some b)) \<and>
              (\<forall>status pre n ext rest e.
                 status_result (silent c) = Returns status \<and> ports (silent c) = pre @ (n, ext) # rest \<and>
                 pings_return (silent c) pre \<and> ping_result (silent c) n = Raises e \<longrightarrow>
                 (\<exists>outs. inspect order c (silent c) =
                    (status_cells order c (silent c) status @ outs @
                       [Pending Port_row (Port_pending ext n), Commit Port_row Host_down,
                        Commit Port_row Newline], None) \<and>
                    (\<forall>f. Commit f Host_down \<notin> set outs))) \<and>
              (\<forall>status pre n ext rest b.
                 status_result (silent c) = Returns status \<and> ports (silent c) = pre @ (n, ext) # rest \<and>
                 pings_return (silent c) pre \<and> ping_result (silent c) n = Raises_base b \<longrightarrow>
                 (\<exists>outs. inspect order c (silent c) =
                    (status_cells order c (silent c) status @ outs @
                       [Pending Port_row (Port_pending ext n)], Some b) \<and>
                    (\<forall>f. Commit f Host_down \<notin> set outs))) \<and>
              (\<forall>status. status_result (silent c) = Returns status \<and>
                 pings_return (silent c) (ports (silent c)) \<longrightarrow>
                 (\<exists>outs fmt. inspect order c (silent c) =
                    (status_cells order c (silent c) status @ outs @ [Commit fmt Newline], None) \<and>
                    (\<forall>f. Commit f Host_down \<notin> set outs)))"
    by (elim exE conjE) (rule that; assumption)
  from r(8) un have none: "run_escape r = None"
    and all: "inspected silent (enumerate 1 [cA, cB]) = enumerate 1 [cA, cB]"
    by blast+
  from r(6,7) none all
  have run: "\<exists>r. FullStatus_run silent (boot play_AB) = Some r \<and> run_escape r = None \<and>
      the_play (run_state r) = play_AB \<and> the_error (run_state r) = None \<and>
      main_pc (run_state r) = M_Done \<and>
      map snd (trace (run_state r)) =
        [Print_header, Om_start] @ rendered silent (enumerate 1 [cA, cB]) @ [Om_end]"
    using r(1,2,3) by (intro exI [of _ r]) simp
  from ins [THEN spec [of _ 1], THEN spec [of _ cA], THEN conjunct1, rule_format, OF sA]
  have a: "inspect 1 cA (silent cA) =
     ([Pending (Row 1 cA) Checking_container, Commit (Row 1 cA) Host_down,
       Commit (Row 1 cA) Newline], None)" .
  note insB = ins [THEN spec [of _ 2], THEN spec [of _ cB]]
  from insB [THEN conjunct2, THEN conjunct2, THEN conjunct1, rule_format,
      OF conjI [OF sB conjI [OF pB conjI [OF rB gB]]]]
  have c: "\<exists>outs. inspect 2 cB (silent cB) =
      (status_cells 2 cB (silent cB) (Some True) @ outs @
         [Pending Port_row (Port_pending ''8081'' ''admin''), Commit Port_row Host_down,
          Commit Port_row Newline], None)"
    by blast
  from FullStatus_run_isolates [OF init, of interrupted] obtain q
    where q: "FullStatus_run interrupted (boot play_AB) = Some q" "the_play (run_state q) = play_AB"
      "the_error (run_state q) = None" "workers (run_state q) = []"
      "run_escape q = first_escape interrupted (enumerate 1 [cA, cB])"
      "map snd (trace (run_state q)) = [Print_header, Om_start]
         @ rendered interrupted (inspected interrupted (enumerate 1 [cA, cB]))
         @ (if run_escape q = None then [Om_end] else [])"
      "main_pc (run_state q) = (if run_escape q = None then M_Done else M_Registering)"
      "unescaped interrupted (enumerate 1 [cA, cB]) \<longrightarrow>
         run_escape q = None \<and> inspected interrupted (enumerate 1 [cA, cB]) = enumerate 1 [cA, cB]"
      "\<forall>b. run_escape q = Some b \<longrightarrow>
         (\<exists>seen order c rest. enumerate 1 [cA, cB] = seen @ (order, c) # rest \<and>
            unescaped interrupted seen \<and> snd (inspect order c (interrupted c)) = Some b \<and>
            inspected interrupted (enumerate 1 [cA, cB]) = seen @ [(order, c)])"
    and ins': "\<forall>order c.
              (\<forall>e. status_result (interrupted c) = Raises e \<longrightarrow>
                 inspect order c (interrupted c) =
                   ([Pending (Row order c) Checking_container, Commit (Row order c) Host_down,
                     Commit (Row order c) Newline], None)) \<and>
              (\<forall>b. status_result (interrupted c) = Raises_base b \<longrightarrow>
                 inspect order c (interrupted c) = ([Pending (Row order c) Checking_container], Some b)) \<and>
              (\<forall>status pre n ext rest e.
                 status_result (interrupted c) = Returns status \<and> ports (interrupted c) = pre @ (n, ext) # rest \<and>
                 pings_return (interrupted c) pre \<and> ping_result (interrupted c) n = Raises e \<longrightarrow>
                 (\<exists>outs. inspect order c (interrupted c) =
                    (status_cells order c (interrupted c) status @ outs @
                       [Pending Port_row (Port_pending ext n), Commit Port_row Host_down,
                        Commit Port_row Newline], None) \<and>
                    (\<forall>f. Commit f Host_down \<notin> set outs))) \<and>
              (\<forall>status pre n ext rest b.
                 status_result (interrupted c) = Returns status \<and> ports (interrupted c) = pre @ (n, ext) # rest \<and>
                 pings_return (interrupted c) pre \<and> ping_result (interrupted c) n = Raises_base b \<longrightarrow>
                 (\<exists>outs. inspect order c (interrupted c) =
                    (status_cells order c (interrupted c) status @ outs @
                       [Pending Port_row (Port_pending ext n)], Some b) \<and>
                    (\<forall>f. Commit f Host_down \<notin> set outs))) \<and>
              (\<forall>status. status_result (interrupted c) = Returns status \<and>
                 pings_return (interrupted c) (ports (interrupted c)) \<longrightarrow>
                 (\<exists>outs fmt. inspect order c (interrupted c) =
                    (status_cells order c (interrupted c) status @ outs @ [Commit fmt Newline], None) \<and>
                    (\<forall>f. Commit f Host_down \<notin> set outs)))"
    by (elim exE conjE) (rule that; assumption)
  from q(1,2,3,5,7) esc
  have run': "\<exists>r. FullStatus_run interrupted (boot play_AB) = Some r \<and>
      run_escape r = Some ''KeyboardInterrupt'' \<and> the_play (run_state r) = play_AB \<and>
      the_error (run_state r) = None \<and> main_pc (run_state r) = M_Registering"
    by (intro exI [of _ q]) simp
  from ins' [THEN spec [of _ 1], THEN spec [of _ cA], THEN conjunct2, THEN conjunct1,
      rule_format, OF iA]
  have b: "inspect 1 cA (interrupted cA) =
     ([Pending (Row 1 cA) Checking_container], Some ''KeyboardInterrupt'')" .
  from ins' [THEN spec [of _ 2], THEN spec [of _ cB], THEN conjunct2, THEN conjunct2,
      THEN conjunct2, THEN conjunct1, rule_format,
      OF conjI [OF iB conjI [OF ipB conjI [OF irB igB]]]]
  have d: "\<exists>outs. inspect 2 cB (interrupted cB) =
      (status_cells 2 cB (interrupted cB) (Some True) @ outs @
         [Pending Port_row (Port_pending ''8081'' ''admin'')], Some ''KeyboardInterrupt'')"
    by blast
  from ins' [THEN spec [of _ 3], THEN spec [of _ cC], THEN conjunct2, THEN conjunct2,
      THEN conjunct2, THEN conjunct2, rule_format, OF conjI [OF iC irC]]
  have e: "\<exists>outs fmt. inspect 3 cC (interrupted cC) =
      (status_cells 3 cC (interrupted cC) (Some True) @ outs @ [Commit fmt Newline], None)"
    by blast
  from init un run sA a sB pB rB gB c run' iA b iB ipB irB igB d iC irC e
  show ?thesis by blast
qed

text \<open>
  Claim C9 as stated fails for an exception outside \<^verbatim>\<open>Exception\<close>: a
  \<^verbatim>\<open>KeyboardInterrupt\<close> during \<^verbatim>\<open>status()\<close> of \<open>A\<close> is not caught, nothing is
  rendered for it, \<open>B\<close> is not inspected and \<^verbatim>\<open>end\<close> is not called.
\<close>

theorem FullStatus_interrupt_escapes:
  "FullStatus_run interrupted (boot play_AB) \<noteq> None \<and>
   run_escape (the (FullStatus_run interrupted (boot play_AB))) = Some ''KeyboardInterrupt'' \<and>
   main_pc (run_state (the (FullStatus_run interrupted (boot play_AB)))) = M_Registering \<and>
   map snd (trace (run_state (the (FullStatus_run interrupted (boot play_AB))))) =
     [Print_header, Om_start, Pending (Row 1 cA) Checking_container]"
  by code_simp

end
